theory Spec2Isabelle
  imports
    Complex_Main
    "HOL-Library.Sublist"
    "HOL-Library.Log_Nat"
    "HOL-Library.Multiset"
    "HOL-Library.Product_Lexorder"
    "HOL-Library.AList"
begin

section \<open>tilewarm: the command-line option parser (src/cli-parser.js)\<close>

text \<open>
  The module turns the raw command-line options of a tile-warming job into a validated
  configuration. The embedding below follows the JavaScript function by function.
  Strings are lists of characters (code units below 256). Exceptions are values of a
  sum type.
  What the JavaScript engine and the libraries provide (\<open>Number\<close>, \<open>parseFloat\<close>,
  regular expressions, \<open>String.split\<close>, lodash 4's \<open>range\<close>, \<open>sortBy\<close> and \<open>merge\<close>) is
  modelled from the published behaviour of these primitives; \<open>new Function\<close>, calling a
  compiled function and \<open>JSON.parse\<close> are parameters of the model (the record \<open>engine\<close>).
\<close>

subsection \<open>Numbers\<close>

text \<open>
  A JavaScript number is an IEEE-754 double. A finite double is represented by its exact
  value, a rational; the two zeros are not distinguished. \<open>to_double\<close> rounds a rational
  to the nearest double, ties to even: 53 bits of mantissa \<open>m\<close>, the least exponent
  \<open>e\<close> at \<open>-1074\<close>, and overflow to an infinity when the rounded value \<open>m * 2^e\<close>
  reaches \<open>2^1024\<close>, that is when \<open>m\<close> has more than \<open>1024 - e\<close> bits.
\<close>

datatype jsnum = NaN | PInf | NInf | Fin rat

definition pow2 :: "int \<Rightarrow> rat" where
  "pow2 k = (if 0 \<le> k then 2 ^ nat k else 1 / 2 ^ nat (- k))"

definition flog2 :: "rat \<Rightarrow> int" where
  "flog2 a = (let (p, d) = quotient_of a; k = bitlen p - bitlen d
              in if pow2 k \<le> a then k else k - 1)"

definition round_half_even :: "rat \<Rightarrow> int" where
  "round_half_even x = (let f = \<lfloor>x\<rfloor>; r = x - of_int f
                        in if r < 1 / 2 then f
                           else if 1 / 2 < r then f + 1
                           else if even f then f else f + 1)"

definition to_double :: "rat \<Rightarrow> jsnum" where
  "to_double q =
     (if q = 0 then Fin 0
      else let a = \<bar>q\<bar>;
               e = max (flog2 a - 52) (- 1074);
               m = round_half_even (a / pow2 e);
               v = of_int m * pow2 e
           in if 1024 < bitlen m + e then (if 0 < q then PInf else NInf)
              else Fin (if 0 < q then v else - v))"

fun isFinite :: "jsnum \<Rightarrow> bool" where
  "isFinite (Fin q) = True"
| "isFinite n = False"

text \<open>The sum of two numbers: exact, then rounded.\<close>

fun num_add :: "jsnum \<Rightarrow> jsnum \<Rightarrow> jsnum" where
  "num_add (Fin a) (Fin b) = to_double (a + b)"
| "num_add NaN y = NaN"
| "num_add x NaN = NaN"
| "num_add PInf NInf = NaN"
| "num_add NInf PInf = NaN"
| "num_add PInf y = PInf"
| "num_add NInf y = NInf"
| "num_add x PInf = PInf"
| "num_add x NInf = NInf"

subsection \<open>Strings\<close>

definition is_digit :: "char \<Rightarrow> bool" where
  "is_digit c = (c \<in> set ''0123456789'')"

definition digit_val :: "char \<Rightarrow> int" where
  "digit_val c = of_char c - 48"

text \<open>The characters that \<open>Number\<close> and \<open>parseFloat\<close> trim: tab, line feed, vertical
  tab, form feed, carriage return, space and the no-break space \<open>U+00A0\<close> (the white
  space among the code units below 256, which is what a \<open>char\<close> holds).\<close>

definition is_space :: "char \<Rightarrow> bool" where
  "is_space c = (of_char c \<in> {9, 10, 11, 12, 13, 32, 160 :: int})"

text \<open>\<open>str.split(c)\<close> for a separator of one character: the pieces between the
  separators, a single empty piece for the empty string.\<close>

fun str_split :: "string \<Rightarrow> char \<Rightarrow> string list" where
  "str_split [] c = [[]]"
| "str_split (x # xs) c =
     (if x = c then [] # str_split xs c
      else (case str_split xs c of p # ps \<Rightarrow> (x # p) # ps | [] \<Rightarrow> [[x]]))"

text \<open>\<open>str.indexOf(sub)\<close>: the first position where \<open>sub\<close> starts, or \<open>-1\<close>.\<close>

fun index_from :: "nat \<Rightarrow> string \<Rightarrow> string \<Rightarrow> int" where
  "index_from i [] sub = (if sub = [] then int i else - 1)"
| "index_from i (x # xs) sub =
     (if prefix sub (x # xs) then int i else index_from (Suc i) xs sub)"

definition indexOf :: "string \<Rightarrow> string \<Rightarrow> int" where
  "indexOf s sub = index_from 0 s sub"

subsection \<open>Regular expressions\<close>

text \<open>
  The four regular expressions of the source use literals, the class \<open>\d\<close> (the ten
  ASCII digits), sequence, alternative, \<open>*\<close>, \<open>+\<close> and \<open>?\<close>. They are written as data and
  matched with derivatives. \<open>rx_full r s\<close> is \<open>/^r$/.test(s)\<close>; a pattern anchored on one
  side only is tested on every prefix (\<open>/^r/\<close>) or every suffix (\<open>/r$/\<close>) of the string.
\<close>

datatype rx = Fail | Empty | Lit char | Digit | Seq rx rx | Or rx rx | Many rx

definition some :: "rx \<Rightarrow> rx" where
  "some r = Seq r (Many r)"

definition maybe :: "rx \<Rightarrow> rx" where
  "maybe r = Or r Empty"

fun lits :: "string \<Rightarrow> rx" where
  "lits [] = Empty"
| "lits (c # cs) = Seq (Lit c) (lits cs)"

fun nullable :: "rx \<Rightarrow> bool" where
  "nullable Fail = False"
| "nullable Empty = True"
| "nullable (Lit c) = False"
| "nullable Digit = False"
| "nullable (Seq r s) = (nullable r \<and> nullable s)"
| "nullable (Or r s) = (nullable r \<or> nullable s)"
| "nullable (Many r) = True"

fun deriv :: "char \<Rightarrow> rx \<Rightarrow> rx" where
  "deriv a Fail = Fail"
| "deriv a Empty = Fail"
| "deriv a (Lit c) = (if a = c then Empty else Fail)"
| "deriv a Digit = (if is_digit a then Empty else Fail)"
| "deriv a (Seq r s) =
     (if nullable r then Or (Seq (deriv a r) s) (deriv a s) else Seq (deriv a r) s)"
| "deriv a (Or r s) = Or (deriv a r) (deriv a s)"
| "deriv a (Many r) = Seq (deriv a r) (Many r)"

fun rx_full :: "rx \<Rightarrow> string \<Rightarrow> bool" where
  "rx_full r [] = nullable r"
| "rx_full r (c # cs) = rx_full (deriv c r) cs"

definition rx_prefix :: "rx \<Rightarrow> string \<Rightarrow> bool" where
  "rx_prefix r s = list_ex (rx_full r) (prefixes s)"

definition rx_suffix :: "rx \<Rightarrow> string \<Rightarrow> bool" where
  "rx_suffix r s = list_ex (rx_full r) (suffixes s)"

text \<open>\<open>/^\d+$/\<close>, \<open>/^((\d+\-\d+)|(\d+(,\d+)*))$/\<close>, \<open>/mi$/\<close> and \<open>/^https?\:/\<close>.\<close>

definition rx_number :: rx where
  "rx_number = some Digit"

definition rx_zoom :: rx where
  "rx_zoom = Or (Seq (some Digit) (Seq (Lit (CHR ''-'')) (some Digit)))
                (Seq (some Digit) (Many (Seq (Lit (CHR '','')) (some Digit))))"

definition rx_mi :: rx where
  "rx_mi = lits ''mi''"

definition rx_http :: rx where
  "rx_http = Seq (lits ''http'') (Seq (maybe (Lit (CHR ''s''))) (Lit (CHR '':'')))"

subsection \<open>Reading numbers from strings\<close>

text \<open>
  \<open>str_decimal\<close> reads the longest unsigned decimal literal at the start of a string
  (digits, an optional fraction, an optional exponent, or the word \<open>Infinity\<close>) and
  returns its mathematical value with the rest of the string. \<open>parseFloat\<close> skips leading
  white space, reads a sign and such a literal and ignores what follows; \<open>Number\<close>
  applied to a string trims both ends and accepts a literal only when nothing follows,
  the empty string as 0, and the prefixed forms \<open>0x\<close>, \<open>0o\<close>, \<open>0b\<close>. The value is
  rounded to the nearest double.
\<close>

definition dec :: "string \<Rightarrow> int" where
  "dec s = foldl (\<lambda>a c. 10 * a + digit_val c) 0 s"

datatype literal = LInfinity | LValue rat

definition str_exponent :: "string \<Rightarrow> int \<times> string" where
  "str_exponent s =
     (case s of
        [] \<Rightarrow> (0, s)
      | c # t \<Rightarrow>
          if c = CHR ''e'' \<or> c = CHR ''E'' then
            (let neg = (t \<noteq> [] \<and> hd t = CHR ''-'');
                 u = (if t \<noteq> [] \<and> (hd t = CHR ''-'' \<or> hd t = CHR ''+'') then tl t else t);
                 ds = takeWhile is_digit u
             in if ds = [] then (0, s)
                else (if neg then - dec ds else dec ds, dropWhile is_digit u))
          else (0, s))"

definition pow10 :: "int \<Rightarrow> rat" where
  "pow10 k = (if 0 \<le> k then 10 ^ nat k else 1 / 10 ^ nat (- k))"

definition str_decimal :: "string \<Rightarrow> (literal \<times> string) option" where
  "str_decimal s =
     (if prefix ''Infinity'' s then Some (LInfinity, drop 8 s)
      else let ip = takeWhile is_digit s; r1 = dropWhile is_digit s;
               dot = (r1 \<noteq> [] \<and> hd r1 = CHR ''.'');
               fp = (if dot then takeWhile is_digit (tl r1) else []);
               r2 = (if dot then dropWhile is_digit (tl r1) else r1)
           in if ip = [] \<and> fp = [] then None
              else let (ex, r3) = str_exponent r2;
                       m = of_int (dec ip) + of_int (dec fp) / 10 ^ length fp
                   in Some (LValue (m * pow10 ex), r3))"

definition signed_literal :: "string \<Rightarrow> (jsnum \<times> string) option" where
  "signed_literal s =
     (let neg = (s \<noteq> [] \<and> hd s = CHR ''-'');
          u = (if s \<noteq> [] \<and> (hd s = CHR ''-'' \<or> hd s = CHR ''+'') then tl s else s)
      in case str_decimal u of
           None \<Rightarrow> None
         | Some (LInfinity, r) \<Rightarrow> Some (if neg then NInf else PInf, r)
         | Some (LValue v, r) \<Rightarrow> Some (to_double (if neg then - v else v), r))"

definition parseFloat_str :: "string \<Rightarrow> jsnum" where
  "parseFloat_str s =
     (case signed_literal (dropWhile is_space s) of
        None \<Rightarrow> NaN
      | Some (n, r) \<Rightarrow> n)"

definition radix_digit :: "int \<Rightarrow> char \<Rightarrow> int option" where
  "radix_digit b c =
     (let n = of_char c;
          v = (if 48 \<le> n \<and> n \<le> 57 then n - 48
               else if 97 \<le> n \<and> n \<le> 102 then n - 87
               else if 65 \<le> n \<and> n \<le> 70 then n - 55
               else 16)
      in if v < b then Some v else None)"

definition radix_literal :: "int \<Rightarrow> string \<Rightarrow> jsnum" where
  "radix_literal b s =
     (if s \<noteq> [] \<and> list_all (\<lambda>c. radix_digit b c \<noteq> None) s
      then to_double (of_int (foldl (\<lambda>a c. b * a + the (radix_digit b c)) 0 s))
      else NaN)"

definition Number_str :: "string \<Rightarrow> jsnum" where
  "Number_str s =
     (let t = rev (dropWhile is_space (rev (dropWhile is_space s)))
      in if t = [] then Fin 0
         else if prefix ''0x'' t \<or> prefix ''0X'' t then radix_literal 16 (drop 2 t)
         else if prefix ''0o'' t \<or> prefix ''0O'' t then radix_literal 8 (drop 2 t)
         else if prefix ''0b'' t \<or> prefix ''0B'' t then radix_literal 2 (drop 2 t)
         else (case signed_literal t of
                 Some (n, []) \<Rightarrow> n
               | _ \<Rightarrow> NaN))"

subsection \<open>Values, errors and the outside world\<close>

text \<open>
  The value of a raw option: a string, a boolean, \<open>null\<close>, or nothing (\<open>undefined\<close>).
  \<open>truthy\<close> is the test of \<open>if (v)\<close>, \<open>toString\<close> the conversion made by a regular
  expression test, by \<open>String(v)\<close>, \<open>parseFloat(v)\<close> and a template literal, \<open>Number_js\<close>
  the conversion \<open>Number(v)\<close>.
\<close>

datatype rawval = Undefined | Null | Bool bool | Str string

fun truthy :: "rawval \<Rightarrow> bool" where
  "truthy Undefined = False"
| "truthy Null = False"
| "truthy (Bool b) = b"
| "truthy (Str s) = (s \<noteq> [])"

fun toString :: "rawval \<Rightarrow> string" where
  "toString Undefined = ''undefined''"
| "toString Null = ''null''"
| "toString (Bool b) = (if b then ''true'' else ''false'')"
| "toString (Str s) = s"

fun Number_js :: "rawval \<Rightarrow> jsnum" where
  "Number_js Undefined = NaN"
| "Number_js Null = Fin 0"
| "Number_js (Bool b) = Fin (if b then 1 else 0)"
| "Number_js (Str s) = Number_str s"

definition parseFloat :: "rawval \<Rightarrow> jsnum" where
  "parseFloat v = parseFloat_str (toString v)"

text \<open>
  An exception is either the error made by \<open>throwArgumentError\<close>, which carries the flag
  \<open>argumentError: true\<close> and the message it was given (none when the message is
  \<open>undefined\<close>), or an error thrown by the engine or a library, known by its name.
\<close>

datatype error = ArgumentError "string option" | NativeError string

fun argumentError :: "error \<Rightarrow> bool" where
  "argumentError (ArgumentError m) = True"
| "argumentError (NativeError n) = False"

definition throwArgumentError :: "string option \<Rightarrow> error + 'a" where
  "throwArgumentError message = Inl (ArgumentError message)"

definition andThen :: "error + 'a \<Rightarrow> ('a \<Rightarrow> error + 'b) \<Rightarrow> error + 'b" where
  "andThen r f = (case r of Inl e \<Rightarrow> Inl e | Inr x \<Rightarrow> f x)"

text \<open>A directive that may depend on the zoom level: \<open>(z) => number\<close>, or the function
  that \<open>new Function('z', body)\<close> compiled, known by its body.\<close>

datatype zoomfn = Constant jsnum | Compiled string

datatype json = JNull | JBool bool | JNum jsnum | JStr string
  | JArr "json list" | JObj "(string \<times> json) list"

text \<open>
  The engine: whether \<open>new Function('z', body)\<close> accepts a body (it throws a
  \<open>SyntaxError\<close> otherwise), what the compiled function returns for a zoom level, and
  \<open>JSON.parse\<close> (\<open>None\<close> when it throws).
\<close>

record engine =
  compiles :: "string \<Rightarrow> bool"
  run :: "string \<Rightarrow> jsnum \<Rightarrow> error + jsnum"
  JSON_parse :: "string \<Rightarrow> json option"

fun apply_fn :: "engine \<Rightarrow> zoomfn \<Rightarrow> jsnum \<Rightarrow> error + jsnum" where
  "apply_fn eng (Constant number) z = Inr number"
| "apply_fn eng (Compiled body) z = run eng body z"

text \<open>The file system: the files by path, and the paths read so far.\<close>

record filesystem =
  files :: "(string \<times> string) list"
  reads :: "string list"

definition readFileSync :: "rawval \<Rightarrow> filesystem \<Rightarrow> (error + string) \<times> filesystem" where
  "readFileSync path fs =
     (case path of
        Str p \<Rightarrow>
          (case map_of (files fs) p of
             Some content \<Rightarrow> Inr content
           | None \<Rightarrow> Inl (NativeError ''ENOENT''),
           fs\<lparr>reads := reads fs @ [p]\<rparr>)
      | _ \<Rightarrow> (Inl (NativeError ''TypeError''), fs))"

subsection \<open>lodash: \<open>range\<close>, \<open>sortBy\<close>\<close>

text \<open>
  \<open>_.range(start, end)\<close> of lodash 4: both ends are made finite, the step is 1 when
  \<open>start < end\<close> and -1 otherwise, the length is \<open>max(ceil((end - start) / step), 0)\<close>, the
  array is allocated (a \<open>RangeError\<close> beyond \<open>2^32 - 1\<close> elements) and filled by
  repeated addition of the step.
\<close>

definition MAX_INTEGER :: rat where
  "MAX_INTEGER = (2 ^ 53 - 1) * 2 ^ 971"

fun toFinite :: "jsnum \<Rightarrow> rat" where
  "toFinite NaN = 0"
| "toFinite PInf = MAX_INTEGER"
| "toFinite NInf = - MAX_INTEGER"
| "toFinite (Fin q) = q"

fun range_fill :: "nat \<Rightarrow> jsnum \<Rightarrow> jsnum \<Rightarrow> jsnum list" where
  "range_fill 0 start step = []"
| "range_fill (Suc n) start step = start # range_fill n (num_add start step) step"

definition baseRange :: "rat \<Rightarrow> rat \<Rightarrow> rat \<Rightarrow> error + jsnum list" where
  "baseRange start end step =
     (case to_double (end - start) of
        Fin d \<Rightarrow>
          (let len = max \<lceil>d / step\<rceil> 0
           in if len \<le> 4294967295 then Inr (range_fill (nat len) (Fin start) (Fin step))
              else Inl (NativeError ''RangeError''))
      | _ \<Rightarrow> Inl (NativeError ''RangeError''))"

definition range_lodash :: "jsnum \<Rightarrow> jsnum \<Rightarrow> error + jsnum list" where
  "range_lodash start end =
     (let s = toFinite start; e = toFinite end
      in baseRange s e (if s < e then 1 else - 1))"

text \<open>\<open>_.sortBy(nums)\<close>: a stable ascending sort; a \<open>NaN\<close> comes after every number.\<close>

fun num_key :: "jsnum \<Rightarrow> nat \<times> rat" where
  "num_key NInf = (0, 0)"
| "num_key (Fin q) = (1, q)"
| "num_key PInf = (2, 0)"
| "num_key NaN = (3, 0)"

definition sortBy :: "jsnum list \<Rightarrow> jsnum list" where
  "sortBy nums = sort_key num_key nums"

subsection \<open>The options and the configuration\<close>

text \<open>
  The option bag, as \<open>defaultOpts\<close>, the result of yargs and their merge have it: one
  field for each option the program reads (\<open>httpMethod\<close> is the option \<open>method\<close>).
  \<open>headers\<close> is an object of strings.
\<close>

record raw_opts =
  url :: rawval
  point :: rawval
  buffer :: rawval
  zoom :: rawval
  list :: rawval
  input :: rawval
  httpMethod :: rawval
  headers :: "(string \<times> string) list"
  concurrency :: rawval
  verbose :: rawval
  maxRetries :: rawval
  retryBaseTimeout :: rawval
  requestTimeout :: "jsnum option"

definition defaultOpts :: raw_opts where
  "defaultOpts =
     \<lparr>url = Undefined, point = Undefined,
      buffer = Str ''0km'',
      zoom = Str ''3-9'',
      list = Bool False,
      input = Null,
      httpMethod = Str ''GET'',
      headers = [],
      concurrency = Str ''5'',
      verbose = Bool False,
      maxRetries = Str ''5'',
      retryBaseTimeout = Str ''5000'',
      requestTimeout = Some (Fin (10 * 60 * 1000))\<rparr>"

record buffer_value =
  radius :: jsnum
  unit :: string

record point_value =
  lat :: "jsnum option"
  lng :: "jsnum option"

record config =
  cfg_url :: rawval
  cfg_point :: point_value
  cfg_buffer :: buffer_value
  cfg_zoom :: "jsnum list"
  cfg_list :: rawval
  cfg_input :: json
  cfg_method :: rawval
  cfg_headers :: "(string \<times> string) list"
  cfg_concurrency :: zoomfn
  cfg_verbose :: rawval
  cfg_maxRetries :: zoomfn
  cfg_retryBaseTimeout :: zoomfn
  cfg_requestTimeout :: "jsnum option"

text \<open>\<open>arr[i]\<close>: \<open>undefined\<close> (\<open>None\<close>) beyond the end of the array.\<close>

definition elem :: "'a list \<Rightarrow> nat \<Rightarrow> 'a option" where
  "elem xs i = (if i < length xs then Some (xs ! i) else None)"

subsection \<open>The parsers and validators\<close>

definition assertNumber :: "rawval \<Rightarrow> string option \<Rightarrow> error + jsnum" where
  "assertNumber val message =
     (let number = Number_js val
      in if \<not> isFinite number then throwArgumentError message else Inr number)"

definition parseNumberOrZoomFunction ::
  "engine \<Rightarrow> rawval \<Rightarrow> string option \<Rightarrow> error + zoomfn" where
  "parseNumberOrZoomFunction eng val message =
     (let concurrencyIsNumber = rx_full rx_number (toString val)
      in if concurrencyIsNumber
         then andThen (assertNumber val message) (\<lambda>number. Inr (Constant number))
         else if compiles eng (''return '' @ toString val)
              then Inr (Compiled (''return '' @ toString val))
              else Inl (NativeError ''SyntaxError''))"

definition parsePoint :: "rawval \<Rightarrow> point_value" where
  "parsePoint p =
     (let arr = str_split (toString p) (CHR '','');
          nums = map (\<lambda>i. parseFloat_str i) arr
      in \<lparr>lat = elem nums 0, lng = elem nums 1\<rparr>)"

definition parseBuffer :: "rawval \<Rightarrow> buffer_value" where
  "parseBuffer b =
     (let r = parseFloat b;
          u = (if rx_suffix rx_mi (toString b) then ''miles'' else ''kilometers'')
      in \<lparr>radius = r, unit = u\<rparr>)"

text \<open>Only a string has the methods \<open>indexOf\<close> and \<open>split\<close>: on another value the
  call is a \<open>TypeError\<close>.\<close>

definition parseZoomRange :: "rawval \<Rightarrow> error + jsnum list" where
  "parseZoomRange z =
     (case z of
        Str s \<Rightarrow>
          if indexOf s ''-'' > - 1 then
            (let parts = str_split s (CHR ''-'');
                 min = Number_js (case elem parts 0 of Some t \<Rightarrow> Str t | None \<Rightarrow> Undefined);
                 max = Number_js (case elem parts 1 of Some t \<Rightarrow> Str t | None \<Rightarrow> Undefined)
             in range_lodash min (num_add max (Fin 1)))
          else
            (let nums = map (\<lambda>t. Number_str t) (str_split s (CHR '',''))
             in Inr (sortBy nums))
      | _ \<Rightarrow> Inl (NativeError ''TypeError''))"

definition parseInput ::
  "engine \<Rightarrow> rawval \<Rightarrow> filesystem \<Rightarrow> (error + json) \<times> filesystem" where
  "parseInput eng inp fs =
     (if \<not> truthy inp then (Inr JNull, fs)
      else case readFileSync inp fs of
             (Inl e, fs') \<Rightarrow> (Inl e, fs')
           | (Inr content, fs') \<Rightarrow>
               (case JSON_parse eng content of
                  None \<Rightarrow> (throwArgumentError (Some ''Invalid JSON''), fs')
                | Some obj \<Rightarrow> (Inr obj, fs')))"

definition assertTemplateUrlParameter :: "rawval \<Rightarrow> string \<Rightarrow> error + unit" where
  "assertTemplateUrlParameter template param =
     (case template of
        Str s \<Rightarrow>
          if indexOf s param = - 1
          then throwArgumentError (Some (''Template url is missing parameter: '' @ param))
          else Inr ()
      | _ \<Rightarrow> Inl (NativeError ''TypeError''))"

definition assertTemplateUrl :: "rawval \<Rightarrow> error + unit" where
  "assertTemplateUrl template =
     (if \<not> rx_prefix rx_http (toString template)
      then throwArgumentError (Some ''Invalid url'')
      else andThen (assertTemplateUrlParameter template ''{x}'') (\<lambda>_.
           andThen (assertTemplateUrlParameter template ''{y}'') (\<lambda>_.
           assertTemplateUrlParameter template ''{z}'')))"

text \<open>
  \<open>validateAndTransformOpts\<close>: the three checks, then the derived fields in the order
  of the object literal (the first exception ends the call; only \<open>parseInput\<close> touches
  the file system), then \<open>_.merge({}, opts, derived)\<close>: a fresh object in which each
  derived field stands in the place of the raw one and the other options are those of
  \<open>opts\<close>. The three directives are parsed without a message argument.
\<close>

definition validateAndTransformOpts ::
  "engine \<Rightarrow> raw_opts \<Rightarrow> filesystem \<Rightarrow> (error + config) \<times> filesystem" where
  "validateAndTransformOpts eng opts fs =
     (if truthy (point opts) \<and> \<not> truthy (buffer opts)
      then (throwArgumentError (Some ''When --point is set, --buffer must also be set''), fs)
      else if \<not> rx_full rx_zoom (toString (zoom opts))
      then (throwArgumentError (Some ''Invalid \"zoom\" argument''), fs)
      else case assertTemplateUrl (url opts) of
        Inl e \<Rightarrow> (Inl e, fs)
      | Inr _ \<Rightarrow>
         (let b = parseBuffer (buffer opts)
          in case parseZoomRange (zoom opts) of
            Inl e \<Rightarrow> (Inl e, fs)
          | Inr z \<Rightarrow>
             (let p = parsePoint (point opts)
              in case parseInput eng (input opts) fs of
                (Inl e, fs') \<Rightarrow> (Inl e, fs')
              | (Inr i, fs') \<Rightarrow>
                 (andThen (parseNumberOrZoomFunction eng (concurrency opts) None) (\<lambda>c.
                  andThen (parseNumberOrZoomFunction eng (maxRetries opts) None) (\<lambda>m.
                  andThen (parseNumberOrZoomFunction eng (retryBaseTimeout opts) None) (\<lambda>r.
                  Inr \<lparr>cfg_url = url opts, cfg_point = p, cfg_buffer = b, cfg_zoom = z,
                       cfg_list = list opts, cfg_input = i, cfg_method = httpMethod opts,
                       cfg_headers = headers opts, cfg_concurrency = c,
                       cfg_verbose = verbose opts, cfg_maxRetries = m,
                       cfg_retryBaseTimeout = r,
                       cfg_requestTimeout = requestTimeout opts\<rparr>))),
                  fs'))))"

subsection \<open>The entry point\<close>

text \<open>
  \<open>getUserOpts\<close> is the yargs declaration: every declared option has the value given on
  the command line or else its default, which the declaration reads from \<open>defaultOpts\<close>
  when it runs; \<open>url\<close> is the first positional argument. The command line is given as
  a bag of the options typed (\<open>Undefined\<close>, \<open>None\<close> or \<open>[]\<close> for one not typed).

  \<open>_.merge(object, source)\<close> assigns every property of the source that is not
  \<open>undefined\<close> to the object, key by key inside \<open>headers\<close>, and returns the object:
  \<open>getOpts\<close> passes the module's \<open>defaultOpts\<close> as the object, so the merged bag is also
  the new content of \<open>defaultOpts\<close>. \<open>getOpts\<close> returns it beside the result.
\<close>

definition given :: "rawval \<Rightarrow> rawval \<Rightarrow> rawval" where
  "given v d = (if v = Undefined then d else v)"

definition getUserOpts :: "raw_opts \<Rightarrow> raw_opts \<Rightarrow> raw_opts" where
  "getUserOpts defaults cli =
     \<lparr>url = url cli,
      point = given (point cli) (point defaults),
      buffer = given (buffer cli) (buffer defaults),
      zoom = given (zoom cli) (zoom defaults),
      list = given (list cli) (list defaults),
      input = given (input cli) (input defaults),
      httpMethod = given (httpMethod cli) (httpMethod defaults),
      headers = headers cli,
      concurrency = given (concurrency cli) (concurrency defaults),
      verbose = given (verbose cli) (verbose defaults),
      maxRetries = given (maxRetries cli) (maxRetries defaults),
      retryBaseTimeout = given (retryBaseTimeout cli) (retryBaseTimeout defaults),
      requestTimeout =
        (case requestTimeout cli of None \<Rightarrow> requestTimeout defaults | Some t \<Rightarrow> Some t)\<rparr>"

definition assignMergeValue :: "rawval \<Rightarrow> rawval \<Rightarrow> rawval" where
  "assignMergeValue objValue srcValue = (if srcValue = Undefined then objValue else srcValue)"

definition merge :: "raw_opts \<Rightarrow> raw_opts \<Rightarrow> raw_opts" where
  "merge object source =
     \<lparr>url = assignMergeValue (url object) (url source),
      point = assignMergeValue (point object) (point source),
      buffer = assignMergeValue (buffer object) (buffer source),
      zoom = assignMergeValue (zoom object) (zoom source),
      list = assignMergeValue (list object) (list source),
      input = assignMergeValue (input object) (input source),
      httpMethod = assignMergeValue (httpMethod object) (httpMethod source),
      headers = foldl (\<lambda>h (k, v). AList.update k v h) (headers object) (headers source),
      concurrency = assignMergeValue (concurrency object) (concurrency source),
      verbose = assignMergeValue (verbose object) (verbose source),
      maxRetries = assignMergeValue (maxRetries object) (maxRetries source),
      retryBaseTimeout = assignMergeValue (retryBaseTimeout object) (retryBaseTimeout source),
      requestTimeout =
        (case requestTimeout source of None \<Rightarrow> requestTimeout object | Some t \<Rightarrow> Some t)\<rparr>"

definition getOpts ::
  "engine \<Rightarrow> raw_opts \<Rightarrow> raw_opts \<Rightarrow> filesystem
     \<Rightarrow> ((error + config) \<times> filesystem) \<times> raw_opts" where
  "getOpts eng defaults cli fs =
     (let userOpts = getUserOpts defaults cli;
          opts = merge defaults userOpts
      in (validateAndTransformOpts eng opts fs, opts))"

subsection \<open>Notions used to state the properties\<close>

text \<open>The strings that a regular expression denotes.\<close>

inductive_set star :: "string set \<Rightarrow> string set" for A :: "string set" where
  star_nil: "[] \<in> star A"
| star_app: "u \<in> A \<Longrightarrow> v \<in> star A \<Longrightarrow> u @ v \<in> star A"

fun lang :: "rx \<Rightarrow> string set" where
  "lang Fail = {}"
| "lang Empty = {[]}"
| "lang (Lit c) = {[c]}"
| "lang Digit = {[c] | c. is_digit c}"
| "lang (Seq r s) = {u @ v | u v. u \<in> lang r \<and> v \<in> lang s}"
| "lang (Or r s) = lang r \<union> lang s"
| "lang (Many r) = star (lang r)"

text \<open>A non-empty string of decimal digits, the decimal numeral of a natural number,
  and a list of strings joined by commas.\<close>

definition digits :: "string \<Rightarrow> bool" where
  "digits s = (s \<noteq> [] \<and> list_all is_digit s)"

definition digit_char :: "nat \<Rightarrow> char" where
  "digit_char d = ''0123456789'' ! d"

fun numeral_of :: "nat \<Rightarrow> string" where
  "numeral_of n = (if n < 10 then [digit_char n] else numeral_of (n div 10) @ [digit_char (n mod 10)])"

fun join_commas :: "string list \<Rightarrow> string" where
  "join_commas [] = []"
| "join_commas [x] = x"
| "join_commas (x # y # ys) = x @ CHR '','' # join_commas (y # ys)"

text \<open>A number that is a non-negative integer.\<close>

fun is_nat_num :: "jsnum \<Rightarrow> bool" where
  "is_nat_num (Fin q) = (0 \<le> q \<and> of_int \<lfloor>q\<rfloor> = q)"
| "is_nat_num n = False"

text \<open>
  The decimal literals of the language (\<open>StrDecimalLiteral\<close>) with the numbers they
  denote, stated as a grammar and not as a reader: an optional sign before \<open>Infinity\<close>,
  or before digits with an optional dot and digits (a digit on at least one side of the
  dot) and an optional exponent part, which is \<open>e\<close> or \<open>E\<close>, an optional sign and digits.
\<close>

definition exponent_part :: "string \<Rightarrow> int \<Rightarrow> bool" where
  "exponent_part x k =
     (x = [] \<and> k = 0 \<or>
      (\<exists>c sg ds. (c = CHR ''e'' \<or> c = CHR ''E'') \<and> digits ds \<and> x = c # sg @ ds \<and>
         (sg = [] \<and> k = dec ds \<or> sg = ''+'' \<and> k = dec ds \<or> sg = ''-'' \<and> k = - dec ds)))"

definition unsigned_literal :: "string \<Rightarrow> literal \<Rightarrow> bool" where
  "unsigned_literal u l =
     (u = ''Infinity'' \<and> l = LInfinity \<or>
      (\<exists>ip fp x k. list_all is_digit ip \<and> list_all is_digit fp \<and> exponent_part x k \<and>
         (ip \<noteq> [] \<and> fp = [] \<and> u = ip @ x \<or>
          (ip \<noteq> [] \<or> fp \<noteq> []) \<and> u = ip @ ''.'' @ fp @ x) \<and>
         l = LValue ((of_int (dec ip) + of_int (dec fp) / 10 ^ length fp) * pow10 k)))"

definition str_decimal_literal :: "string \<Rightarrow> jsnum \<Rightarrow> bool" where
  "str_decimal_literal t n =
     (\<exists>sg u l. (sg = [] \<or> sg = ''+'' \<or> sg = ''-'') \<and> t = sg @ u \<and> unsigned_literal u l \<and>
        n = (case l of
               LInfinity \<Rightarrow> (if sg = ''-'' then NInf else PInf)
             | LValue v \<Rightarrow> to_double (if sg = ''-'' then - v else v)))"

text \<open>\<open>p\<close> is the longest prefix of \<open>t\<close> that is a decimal literal.\<close>

definition longest_literal :: "string \<Rightarrow> string \<Rightarrow> bool" where
  "longest_literal p t =
     (prefix p t \<and> (\<exists>n. str_decimal_literal p n) \<and>
      (\<forall>q. prefix q t \<and> (\<exists>n. str_decimal_literal q n) \<longrightarrow> length q \<le> length p))"

text \<open>No prefix of \<open>t\<close> is a decimal literal.\<close>

definition no_literal :: "string \<Rightarrow> bool" where
  "no_literal t = (\<forall>q n. prefix q t \<longrightarrow> \<not> str_decimal_literal q n)"

text \<open>What may follow a decimal numeral without being read as part of it: nothing, or
  a character other than a digit, a dot and the exponent letters.\<close>

definition stops_numeral :: "string \<Rightarrow> bool" where
  "stops_numeral u = (case u of [] \<Rightarrow> True | c # _ \<Rightarrow> \<not> is_digit c \<and> c \<notin> set ''.eE'')"

subsection \<open>An engine and a file system for the worked examples\<close>

text \<open>
  The properties hold for every engine and every file system. Where an example needs
  a concrete one, it uses an engine that knows the expression and the document of the
  specification's examples and rejects everything else, and a file system of two files.
\<close>

definition example_engine :: engine where
  "example_engine =
     \<lparr>compiles = (\<lambda>body. body = ''return z < 8 ? 2 : z * 2''),
      run = (\<lambda>body z.
        if body = ''return z < 8 ? 2 : z * 2''
        then (case z of
                Fin q \<Rightarrow> Inr (if q < 8 then Fin 2 else to_double (q * 2))
              | NInf \<Rightarrow> Inr (Fin 2)
              | PInf \<Rightarrow> Inr PInf
              | NaN \<Rightarrow> Inr NaN)
        else Inl (NativeError ''SyntaxError'')),
      JSON_parse = (\<lambda>text.
        if text = ''{\"type\":\"Point\",\"coordinates\":[1,2]}''
        then Some (JObj [(''type'', JStr ''Point''),
                         (''coordinates'', JArr [JNum (Fin 1), JNum (Fin 2)])])
        else None)\<rparr>"

definition example_files :: filesystem where
  "example_files =
     \<lparr>files = [(''point.json'', ''{\"type\":\"Point\",\"coordinates\":[1,2]}''),
               (''broken.json'', ''{not json'')],
      reads = []\<rparr>"

text \<open>A command line: the url and nothing else typed.\<close>

definition only_url :: "string \<Rightarrow> raw_opts" where
  "only_url u =
     \<lparr>url = Str u, point = Undefined, buffer = Undefined, zoom = Undefined,
      list = Undefined, input = Undefined, httpMethod = Undefined, headers = [],
      concurrency = Undefined, verbose = Undefined, maxRetries = Undefined,
      retryBaseTimeout = Undefined, requestTimeout = None\<rparr>"

section \<open>Properties\<close>

declare numeral_of.simps [simp del]

subsection \<open>Regular expressions: matching by derivatives decides the language\<close>

lemma nullable_lang: "nullable r \<longleftrightarrow> [] \<in> lang r"
  by (induction r) (auto intro: star.intros)

lemma star_cons:
  "c # w \<in> star A \<longleftrightarrow> (\<exists>u v. w = u @ v \<and> c # u \<in> A \<and> v \<in> star A)"
proof
  assume "c # w \<in> star A"
  then show "\<exists>u v. w = u @ v \<and> c # u \<in> A \<and> v \<in> star A"
  proof (induction "c # w" rule: star.induct)
    case (star_app u v)
    then show ?case by (cases u) auto
  qed
next
  assume "\<exists>u v. w = u @ v \<and> c # u \<in> A \<and> v \<in> star A"
  then obtain u v where "w = u @ v" "c # u \<in> A" "v \<in> star A" by blast
  then show "c # w \<in> star A" using star.star_app [of "c # u" A v] by simp
qed

lemma deriv_lang: "w \<in> lang (deriv c r) \<longleftrightarrow> c # w \<in> lang r"
proof (induction r arbitrary: w)
  case (Seq r s)
  show ?case
  proof
    assume "w \<in> lang (deriv c (Seq r s))"
    then consider (l) u v where "w = u @ v" "c # u \<in> lang r" "v \<in> lang s"
      | (r) "[] \<in> lang r" "c # w \<in> lang s"
      using Seq by (auto simp: nullable_lang split: if_splits)
    then show "c # w \<in> lang (Seq r s)"
    proof cases
      case l
      then have "c # w = (c # u) @ v" by simp
      with l show ?thesis unfolding lang.simps by blast
    next
      case r
      then have "c # w = [] @ (c # w)" by simp
      with r show ?thesis unfolding lang.simps by blast
    qed
  next
    assume "c # w \<in> lang (Seq r s)"
    then obtain u v where uv: "c # w = u @ v" "u \<in> lang r" "v \<in> lang s" by auto
    show "w \<in> lang (deriv c (Seq r s))"
    proof (cases u)
      case Nil
      then show ?thesis using uv Seq by (auto simp: nullable_lang)
    next
      case (Cons a u')
      then show ?thesis using uv Seq by (auto simp: nullable_lang)
    qed
  qed
next
  case (Many r)
  then show ?case by (auto simp: star_cons)
qed auto

lemma rx_full_lang: "rx_full r s \<longleftrightarrow> s \<in> lang r"
  by (induction s arbitrary: r) (auto simp: nullable_lang deriv_lang)


lemma star_digit: "s \<in> star (lang Digit) \<longleftrightarrow> list_all is_digit s"
proof
  assume "s \<in> star (lang Digit)"
  then show "list_all is_digit s"
    by (induction rule: star.induct) auto
next
  assume "list_all is_digit s"
  then show "s \<in> star (lang Digit)"
  proof (induction s)
    case Nil
    show ?case by (rule star.star_nil)
  next
    case (Cons c s)
    then have "[c] \<in> lang Digit" "s \<in> star (lang Digit)" by auto
    then have "[c] @ s \<in> star (lang Digit)" by (rule star.star_app)
    then show ?case by simp
  qed
qed

lemma in_lang_Seq: "w \<in> lang (Seq r s) \<longleftrightarrow> (\<exists>u v. w = u @ v \<and> u \<in> lang r \<and> v \<in> lang s)"
  by auto

lemma in_lang_Digit: "u \<in> lang Digit \<longleftrightarrow> (\<exists>c. u = [c] \<and> is_digit c)"
  by auto

lemma lang_some_Digit: "s \<in> lang (some Digit) \<longleftrightarrow> digits s"
proof
  assume "s \<in> lang (some Digit)"
  then obtain u v where "s = u @ v" "u \<in> lang Digit" "v \<in> star (lang Digit)"
    unfolding some_def in_lang_Seq lang.simps(7) by blast
  then show "digits s"
    unfolding star_digit in_lang_Digit digits_def by auto
next
  assume "digits s"
  then obtain c v where "s = [c] @ v" "is_digit c" "list_all is_digit v"
    unfolding digits_def by (cases s) auto
  then have "s = [c] @ v \<and> [c] \<in> lang Digit \<and> v \<in> star (lang Digit)"
    unfolding star_digit in_lang_Digit by blast
  then show "s \<in> lang (some Digit)"
    unfolding some_def in_lang_Seq lang.simps(7) by blast
qed

lemma rx_number_iff: "rx_full rx_number s \<longleftrightarrow> digits s"
  by (simp add: rx_full_lang rx_number_def lang_some_Digit)

lemma lang_comma_items:
  "s \<in> star (lang (Seq (Lit (CHR '','')) (some Digit))) \<longleftrightarrow>
     (\<exists>ds. list_all digits ds \<and> s = concat (map ((#) (CHR '','')) ds))"
proof
  assume "s \<in> star (lang (Seq (Lit (CHR '','')) (some Digit)))"
  then show "\<exists>ds. list_all digits ds \<and> s = concat (map ((#) (CHR '','')) ds)"
  proof (induction rule: star.induct)
    case star_nil
    have "list_all digits [] \<and> [] = concat (map ((#) (CHR '','')) [])" by simp
    then show ?case by blast
  next
    case (star_app u v)
    from star_app.hyps(1) obtain d where d: "u = CHR '','' # d" "digits d"
      by (auto simp: lang_some_Digit simp del: lang.simps(5) simp add: lang.simps(5) [of "Lit _"])
    from star_app.IH obtain ds where ds: "list_all digits ds" "v = concat (map ((#) (CHR '','')) ds)"
      by blast
    from d ds have "list_all digits (d # ds) \<and> u @ v = concat (map ((#) (CHR '','')) (d # ds))"
      by simp
    then show ?case by blast
  qed
next
  assume "\<exists>ds. list_all digits ds \<and> s = concat (map ((#) (CHR '','')) ds)"
  then obtain ds where "list_all digits ds" "s = concat (map ((#) (CHR '','')) ds)" by blast
  then show "s \<in> star (lang (Seq (Lit (CHR '','')) (some Digit)))"
  proof (induction ds arbitrary: s)
    case Nil
    then show ?case by (simp add: star.star_nil)
  next
    case (Cons d ds)
    have "CHR '','' # d \<in> lang (Seq (Lit (CHR '','')) (some Digit))"
      using Cons.prems(1) lang_some_Digit [of d] by auto
    moreover have "concat (map ((#) (CHR '','')) ds) \<in> star (lang (Seq (Lit (CHR '','')) (some Digit)))"
      using Cons by simp
    ultimately have "(CHR '','' # d) @ concat (map ((#) (CHR '','')) ds)
        \<in> star (lang (Seq (Lit (CHR '','')) (some Digit)))"
      by (rule star.star_app)
    then show ?case using Cons.prems(2) by simp
  qed
qed

lemma rx_zoom_iff:
  "rx_full rx_zoom s \<longleftrightarrow>
     (\<exists>a b. digits a \<and> digits b \<and> s = a @ CHR ''-'' # b) \<or>
     (\<exists>d ds. digits d \<and> list_all digits ds \<and> s = d @ concat (map ((#) (CHR '','')) ds))"
proof -
  have 1: "s \<in> lang (Seq (some Digit) (Seq (Lit (CHR ''-'')) (some Digit))) \<longleftrightarrow>
      (\<exists>a b. digits a \<and> digits b \<and> s = a @ CHR ''-'' # b)"
    using lang_some_Digit by (auto simp del: lang.simps(7) simp add: some_def [symmetric])
  have 2: "s \<in> lang (Seq (some Digit) (Many (Seq (Lit (CHR '','')) (some Digit)))) \<longleftrightarrow>
      (\<exists>d ds. digits d \<and> list_all digits ds \<and> s = d @ concat (map ((#) (CHR '','')) ds))"
    unfolding lang.simps(5) [of "some Digit"] lang.simps(7) using lang_some_Digit lang_comma_items by blast
  show ?thesis
    unfolding rx_full_lang rx_zoom_def lang.simps(6) Un_iff 1 2 ..
qed

lemma lang_lits: "lang (lits w) = {w}"
  by (induction w) auto

lemma rx_suffix_iff: "rx_suffix r s \<longleftrightarrow> (\<exists>t\<in>lang r. suffix t s)"
  by (auto simp: rx_suffix_def list_ex_iff rx_full_lang in_set_suffixes)

lemma rx_prefix_iff: "rx_prefix r s \<longleftrightarrow> (\<exists>t\<in>lang r. prefix t s)"
  by (auto simp: rx_prefix_def list_ex_iff rx_full_lang in_set_prefixes)

lemma rx_mi_iff: "rx_suffix rx_mi s \<longleftrightarrow> suffix ''mi'' s"
  unfolding rx_suffix_iff rx_mi_def lang_lits by blast

lemma lang_Seq_lits: "lang (Seq (lits w) r) = (@) w ` lang r"
  unfolding lang.simps(5) lang_lits by blast

lemma lang_rx_http: "lang rx_http = {''http:'', ''https:''}"
proof -
  have "lang (Seq (maybe (Lit (CHR ''s''))) (Lit (CHR '':''))) = {'':'', ''s:''}"
    by (auto simp: maybe_def)
  then show ?thesis
    unfolding rx_http_def lang_Seq_lits by simp
qed

lemma rx_http_iff: "rx_prefix rx_http s \<longleftrightarrow> prefix ''http:'' s \<or> prefix ''https:'' s"
  unfolding rx_prefix_iff lang_rx_http by blast

subsection \<open>Strings\<close>

lemma index_from_ge: "- 1 \<le> index_from i s sub"
  by (induction i s sub rule: index_from.induct) auto

lemma index_from_sublist: "index_from i s sub = - 1 \<longleftrightarrow> \<not> sublist sub s"
  by (induction i s sub rule: index_from.induct) (auto simp: sublist_Cons_right)

lemma indexOf_sublist: "indexOf s sub = - 1 \<longleftrightarrow> \<not> sublist sub s"
  by (simp add: indexOf_def index_from_sublist)

lemma sublist_single: "sublist [c] s \<longleftrightarrow> c \<in> set s"
  by (induction s) (auto simp: sublist_Cons_right)

lemma indexOf_char: "indexOf s [c] > - 1 \<longleftrightarrow> c \<in> set s"
  using index_from_ge [of 0 s "[c]"] indexOf_sublist [of s "[c]"]
  by (auto simp: indexOf_def sublist_single)

lemma str_split_not_Nil: "str_split s c \<noteq> []"
  by (induction s) (auto split: list.splits)

lemma str_split_none: "c \<notin> set s \<Longrightarrow> str_split s c = [s]"
  by (induction s) auto

lemma str_split_append: "c \<notin> set a \<Longrightarrow> str_split (a @ c # b) c = a # str_split b c"
  by (induction a) auto

lemma digits_no_char: "digits a \<Longrightarrow> \<not> is_digit c \<Longrightarrow> c \<notin> set a"
  by (auto simp: digits_def list_all_iff)

lemma join_commas_Cons: "join_commas (d # ds) = d @ concat (map ((#) (CHR '','')) ds)"
  by (induction ds arbitrary: d) auto

lemma str_split_join:
  "list_all digits (d # ds) \<Longrightarrow> str_split (join_commas (d # ds)) (CHR '','') = d # ds"
proof (induction ds arbitrary: d)
  case Nil
  then show ?case using digits_no_char [of d "CHR '',''"] by (simp add: str_split_none is_digit_def)
next
  case (Cons e es)
  have "CHR '','' \<notin> set d" using Cons.prems digits_no_char [of d "CHR '',''"] by (simp add: is_digit_def)
  then show ?case using Cons by (simp add: str_split_append)
qed

subsection \<open>Numbers\<close>

lemma round_half_even_int: "round_half_even (of_int n) = n"
  by (simp add: round_half_even_def)

lemma flog2_int:
  assumes "0 < n"
  shows "flog2 (of_int n) = bitlen n - 1"
proof -
  have b1: "bitlen 1 = 1" by (simp add: bitlen_alt_def)
  have nn: "0 \<le> bitlen n - 1" using assms by (simp add: bitlen_alt_def)
  have "(2::int) ^ nat (bitlen n - 1) \<le> n" using bitlen_bounds [OF assms] by simp
  then have "(of_int (2 ^ nat (bitlen n - 1)) :: rat) \<le> of_int n" by (simp only: of_int_le_iff)
  then have "pow2 (bitlen n - 1) \<le> of_int n" using nn by (simp add: pow2_def)
  then show ?thesis by (simp add: flog2_def b1)
qed

lemma to_double_pos:
  "0 < q \<Longrightarrow> to_double q =
     (if 1024 < bitlen (round_half_even (q / pow2 (max (flog2 q - 52) (- 1074))))
                 + max (flog2 q - 52) (- 1074)
      then PInf
      else Fin (of_int (round_half_even (q / pow2 (max (flog2 q - 52) (- 1074))))
                * pow2 (max (flog2 q - 52) (- 1074))))"
  by (simp add: to_double_def Let_def)

lemma to_double_int_small:
  assumes "0 \<le> n" "n < 2 ^ 53"
  shows "to_double (of_int n) = Fin (of_int n)"
proof (cases "n = 0")
  case True
  then show ?thesis by (simp add: to_double_def)
next
  case False
  then have pos: "0 < n" using assms by simp
  define k where "k = bitlen n - 1"
  have k0: "0 \<le> k" using pos by (simp add: k_def bitlen_alt_def)
  have "bitlen n \<le> 53" using assms by (simp add: bitlen_le_iff_power)
  then have k52: "k \<le> 52" by (simp add: k_def)
  define e where "e = max (flog2 (of_int n) - 52) (- 1074)"
  have e: "e = k - 52" using pos k0 by (simp add: e_def flog2_int k_def)
  have p: "pow2 e = 1 / 2 ^ nat (52 - k)" using k52 e by (auto simp: pow2_def)
  have d: "(of_int n :: rat) / pow2 e = of_int (n * 2 ^ nat (52 - k))"
    using pos by (simp add: p)
  have m: "round_half_even (of_int n / pow2 e) = n * 2 ^ nat (52 - k)"
    unfolding d by (rule round_half_even_int)
  have bl: "bitlen (n * 2 ^ nat (52 - k)) + e = bitlen n"
    using pos k52 by (simp add: e)
  have v: "of_int (n * 2 ^ nat (52 - k)) * pow2 e = (of_int n :: rat)"
    by (simp add: p)
  have le: "\<not> 1024 < bitlen n" using \<open>bitlen n \<le> 53\<close> by simp
  have "0 < (of_int n :: rat)" using pos by simp
  from to_double_pos [OF this] have "to_double (of_int n) =
      (if 1024 < bitlen (n * 2 ^ nat (52 - k)) + e then PInf
       else Fin (of_int (n * 2 ^ nat (52 - k)) * pow2 e))"
    unfolding e_def [symmetric] m .
  also have "\<dots> = Fin (of_int n)"
    unfolding bl v using le by simp
  finally show ?thesis .
qed

text \<open>Rounding at work: ties go to the even mantissa, and a tenth is not a double.\<close>

lemma to_double_examples:
  "to_double 9007199254740993 = Fin 9007199254740992"
  "to_double 9007199254740995 = Fin 9007199254740996"
  "to_double (1 / 10) = Fin (3602879701896397 / 36028797018963968)"
  "to_double (- (5 / 2)) = Fin (- (5 / 2))"
  by code_simp+

lemma to_double_2_53: "to_double 9007199254740992 = Fin 9007199254740992"
  by code_simp

lemma to_double_int_exact:
  assumes "0 \<le> n" "n \<le> 2 ^ 53"
  shows "to_double (of_int n) = Fin (of_int n)"
proof (cases "n = 2 ^ 53")
  case True
  then show ?thesis using to_double_2_53 by simp
next
  case False
  then show ?thesis using assms to_double_int_small by simp
qed


subsection \<open>Numerals\<close>

lemma digit_not_space: "is_digit c \<Longrightarrow> \<not> is_space c"
  by (auto simp: is_digit_def is_space_def)

lemma dropWhile_none: "list_all (\<lambda>c. \<not> P c) s \<Longrightarrow> dropWhile P s = s"
  by (cases s) auto

lemma digits_trim:
  assumes "digits s"
  shows "rev (dropWhile is_space (rev (dropWhile is_space s))) = s"
proof -
  have a: "list_all (\<lambda>c. \<not> is_space c) s"
    using assms digit_not_space by (auto simp: digits_def list_all_iff)
  then have b: "list_all (\<lambda>c. \<not> is_space c) (rev s)" by (simp add: list_all_iff)
  show ?thesis by (simp add: dropWhile_none [OF a] dropWhile_none [OF b])
qed

lemma digits_no_prefix:
  assumes "digits s" "c \<in> set p" "\<not> is_digit c"
  shows "\<not> prefix p s"
proof
  assume "prefix p s"
  then have "set p \<subseteq> set s" by (rule set_mono_prefix)
  then show False using assms by (auto simp: digits_def list_all_iff)
qed

lemma str_decimal_digits:
  assumes "digits s"
  shows "str_decimal s = Some (LValue (of_int (dec s)), [])"
proof -
  have inf: "\<not> prefix ''Infinity'' s"
    by (rule digits_no_prefix [OF assms, of "CHR ''I''"]) (simp_all add: is_digit_def)
  have all: "\<forall>c\<in>set s. is_digit c" using assms by (simp add: digits_def list_all_iff)
  then have tw: "takeWhile is_digit s = s" and dw: "dropWhile is_digit s = []"
    by (simp_all add: takeWhile_eq_all_conv)
  have ex: "str_exponent [] = (0, [])" by (simp add: str_exponent_def)
  have ne: "s \<noteq> []" using assms by (simp add: digits_def)
  show ?thesis
    by (simp add: str_decimal_def inf tw dw ex ne Let_def pow10_def dec_def)
qed

lemma signed_literal_digits:
  assumes "digits s"
  shows "signed_literal s = Some (to_double (of_int (dec s)), [])"
proof -
  obtain c t where s: "s = c # t" and c: "is_digit c"
    using assms by (cases s) (auto simp: digits_def)
  have "c \<noteq> CHR ''-''" "c \<noteq> CHR ''+''" using c by (auto simp: is_digit_def)
  then show ?thesis
    using str_decimal_digits [OF assms] by (simp add: signed_literal_def s)
qed

lemma Number_str_digits:
  assumes "digits s"
  shows "Number_str s = to_double (of_int (dec s))"
proof -
  have ne: "s \<noteq> []" using assms by (simp add: digits_def)
  have np: "\<not> prefix ''0x'' s" "\<not> prefix ''0X'' s" "\<not> prefix ''0o'' s"
    "\<not> prefix ''0O'' s" "\<not> prefix ''0b'' s" "\<not> prefix ''0B'' s"
    by (rule digits_no_prefix [OF assms, of "CHR ''x''"], simp_all add: is_digit_def,
        rule digits_no_prefix [OF assms, of "CHR ''X''"], simp_all add: is_digit_def,
        rule digits_no_prefix [OF assms, of "CHR ''o''"], simp_all add: is_digit_def,
        rule digits_no_prefix [OF assms, of "CHR ''O''"], simp_all add: is_digit_def,
        rule digits_no_prefix [OF assms, of "CHR ''b''"], simp_all add: is_digit_def,
        rule digits_no_prefix [OF assms, of "CHR ''B''"], simp_all add: is_digit_def)
  show ?thesis
    unfolding Number_str_def digits_trim [OF assms] Let_def
    using ne np by (simp add: signed_literal_digits [OF assms])
qed

lemma dec_snoc: "dec (s @ [c]) = 10 * dec s + digit_val c"
  by (simp add: dec_def)

lemma digit_val_nonneg: "is_digit c \<Longrightarrow> 0 \<le> digit_val c"
  by (auto simp: is_digit_def digit_val_def)

lemma dec_nonneg: "list_all is_digit s \<Longrightarrow> 0 \<le> dec s"
proof (induction s rule: rev_induct)
  case Nil
  show ?case by (simp add: dec_def)
next
  case (snoc c s)
  then show ?case using digit_val_nonneg [of c] by (simp add: dec_snoc)
qed

lemma digit_char_props:
  assumes "d < 10"
  shows "is_digit (digit_char d)" "digit_val (digit_char d) = int d"
proof -
  have "d \<in> {0, 1, 2, 3, 4, 5, 6, 7, 8, 9}" using assms by auto
  then show "is_digit (digit_char d)" "digit_val (digit_char d) = int d"
    by (auto simp: digit_char_def is_digit_def digit_val_def)
qed

lemma numeral_of_props: "digits (numeral_of n) \<and> dec (numeral_of n) = int n"
proof (induction n rule: numeral_of.induct)
  case (1 n)
  show ?case
  proof (cases "n < 10")
    case True
    then show ?thesis
      using digit_char_props [of n] by (simp add: numeral_of.simps [of n] digits_def dec_def)
  next
    case False
    have m: "n mod 10 < 10" by simp
    from False 1 have ih: "digits (numeral_of (n div 10))" "dec (numeral_of (n div 10)) = int (n div 10)"
      by simp_all
    have eq: "numeral_of n = numeral_of (n div 10) @ [digit_char (n mod 10)]"
      using False by (simp add: numeral_of.simps [of n])
    have "int n = 10 * int (n div 10) + int (n mod 10)" by presburger
    then show ?thesis
      using ih digit_char_props [OF m] by (simp add: eq digits_def dec_snoc)
  qed
qed

subsection \<open>The zoom parser\<close>

lemma to_double_nat_exact: "n \<le> 2 ^ 53 \<Longrightarrow> to_double (of_nat n) = Fin (of_nat n)"
proof -
  assume "n \<le> 2 ^ 53"
  then have "int n \<le> 2 ^ 53" by (metis of_nat_le_iff of_nat_numeral of_nat_power)
  then have "to_double (of_int (int n)) = Fin (of_int (int n))"
    by (intro to_double_int_exact) simp_all
  then show ?thesis by simp
qed

lemma range_fill_exact:
  "a + n \<le> 2 ^ 53 \<Longrightarrow>
     range_fill n (Fin (of_nat a)) (Fin 1) = map (\<lambda>i. Fin (of_nat i)) [a..<a + n]"
proof (induction n arbitrary: a)
  case 0
  show ?case by simp
next
  case (Suc n)
  have "Suc a \<le> 2 ^ 53" using Suc.prems by simp
  then have td: "to_double (of_nat (Suc a)) = Fin (of_nat (Suc a))" by (rule to_double_nat_exact)
  have su: "(of_nat a :: rat) + 1 = of_nat (Suc a)" by simp
  have step: "num_add (Fin (of_nat a)) (Fin 1) = Fin (of_nat (Suc a))"
    by (simp only: num_add.simps su td)
  have "Suc a + n \<le> 2 ^ 53" using Suc.prems by simp
  note ih = Suc.IH [OF this]
  have up: "[a..<a + Suc n] = a # [Suc a..<Suc a + n]"
    by (simp add: upt_conv_Cons del: upt_Suc)
  have "range_fill (Suc n) (Fin (of_nat a)) (Fin 1)
      = Fin (of_nat a) # range_fill n (Fin (of_nat (Suc a))) (Fin 1)"
    by (simp only: range_fill.simps step)
  also have "\<dots> = Fin (of_nat a) # map (\<lambda>i. Fin (of_nat i)) [Suc a..<Suc a + n]"
    by (simp only: ih)
  also have "\<dots> = map (\<lambda>i. Fin (of_nat i)) [a..<a + Suc n]"
    by (simp only: up list.map)
  finally show ?case .
qed

lemma baseRange_exact:
  assumes "a < e" "e \<le> 2 ^ 53" "e - a \<le> 4294967295"
  shows "baseRange (of_nat a) (of_nat e) 1 = Inr (map (\<lambda>i. Fin (of_nat i)) [a..<e])"
proof -
  have d: "(of_nat e :: rat) - of_nat a = of_nat (e - a)" using assms(1) by (simp add: of_nat_diff)
  have "e - a \<le> 2 ^ 53" using assms(2) by simp
  then have td: "to_double (of_nat e - of_nat a) = Fin (of_nat (e - a))"
    unfolding d by (rule to_double_nat_exact)
  have c: "\<lceil>(of_nat (e - a) :: rat)\<rceil> = int (e - a)" by (metis ceiling_of_int of_int_of_nat_eq)
  have le: "int (e - a) \<le> 4294967295" using assms(3) by simp
  have "a + (e - a) \<le> 2 ^ 53" using assms by simp
  from range_fill_exact [OF this] have rf:
    "range_fill (e - a) (Fin (of_nat a)) (Fin 1) = map (\<lambda>i. Fin (of_nat i)) [a..<e]"
    using assms(1) by simp
  show ?thesis
    unfolding baseRange_def td using le by (simp add: c rf)
qed

lemma range_lodash_exact:
  assumes "a < e" "e \<le> 2 ^ 53" "e - a \<le> 4294967295"
  shows "range_lodash (Fin (of_nat a)) (Fin (of_nat e)) = Inr (map (\<lambda>i. Fin (of_nat i)) [a..<e])"
  using assms baseRange_exact [OF assms] by (simp add: range_lodash_def)

lemma Number_str_exact:
  assumes "digits s" "dec s = int n" "n \<le> 2 ^ 53"
  shows "Number_str s = Fin (of_nat n)"
  using Number_str_digits [OF assms(1)] to_double_nat_exact [OF assms(3)] assms(2) by simp

lemma parseZoomRange_dash:
  assumes "digits sa" "digits sb"
  shows "parseZoomRange (Str (sa @ CHR ''-'' # sb)) =
           range_lodash (Number_str sa) (num_add (Number_str sb) (Fin 1))"
proof -
  have na: "CHR ''-'' \<notin> set sa" by (rule digits_no_char [OF assms(1)]) (simp add: is_digit_def)
  have nb: "CHR ''-'' \<notin> set sb" by (rule digits_no_char [OF assms(2)]) (simp add: is_digit_def)
  have sp: "str_split (sa @ CHR ''-'' # sb) (CHR ''-'') = [sa, sb]"
    by (simp add: str_split_append [OF na] str_split_none [OF nb])
  have ix: "indexOf (sa @ CHR ''-'' # sb) ''-'' > - 1" by (simp add: indexOf_char)
  show ?thesis
    using ix by (simp add: parseZoomRange_def sp elem_def)
qed

lemma parseZoomRange_range:
  assumes "digits sa" "digits sb" "dec sa = int a" "dec sb = int b"
    and "a \<le> b" "b < 2 ^ 53" "b - a < 4294967295"
  shows "parseZoomRange (Str (sa @ CHR ''-'' # sb)) = Inr (map (\<lambda>i. Fin (of_nat i)) [a..<Suc b])"
proof -
  have a: "Number_str sa = Fin (of_nat a)"
    using assms by (intro Number_str_exact) simp_all
  have b: "Number_str sb = Fin (of_nat b)"
    using assms by (intro Number_str_exact) simp_all
  have "Suc b \<le> 2 ^ 53" using assms(6) by simp
  then have "to_double (of_nat (Suc b)) = Fin (of_nat (Suc b))" by (rule to_double_nat_exact)
  moreover have "(of_nat b :: rat) + 1 = of_nat (Suc b)" by simp
  ultimately have e: "num_add (Fin (of_nat b)) (Fin 1) = Fin (of_nat (Suc b))"
    by (simp only: num_add.simps)
  have "range_lodash (Fin (of_nat a)) (Fin (of_nat (Suc b))) = Inr (map (\<lambda>i. Fin (of_nat i)) [a..<Suc b])"
    using assms by (intro range_lodash_exact) simp_all
  then show ?thesis
    unfolding parseZoomRange_dash [OF assms(1,2)] a b e .
qed



lemma round_half_even_nonneg: "0 \<le> x \<Longrightarrow> 0 \<le> round_half_even x"
  by (auto simp: round_half_even_def Let_def)

lemma to_double_nat_shape:
  assumes "0 \<le> n"
  shows "to_double (of_int n) = PInf \<or> is_nat_num (to_double (of_int n))"
proof (cases "n = 0")
  case True
  then show ?thesis by (simp add: to_double_def)
next
  case False
  then have pos: "0 < (of_int n :: rat)" using assms by simp
  define e where "e = max (flog2 (of_int n) - 52) (- 1074)"
  define m where "m = round_half_even (of_int n / pow2 e)"
  have p0: "0 < pow2 e" by (simp add: pow2_def)
  have m0: "0 \<le> m" unfolding m_def using pos p0 by (intro round_half_even_nonneg) simp
  have "\<exists>k\<ge>0. of_int m * pow2 e = (of_int k :: rat)"
  proof (cases "0 \<le> e")
    case True
    then have "of_int m * pow2 e = (of_int (m * 2 ^ nat e) :: rat)" by (simp add: pow2_def)
    moreover have "0 \<le> m * 2 ^ nat e" using m0 by simp
    ultimately show ?thesis by blast
  next
    case False
    then have p: "pow2 e = 1 / 2 ^ nat (- e)" by (simp add: pow2_def)
    then have "(of_int n :: rat) / pow2 e = of_int (n * 2 ^ nat (- e))" by simp
    then have "m = n * 2 ^ nat (- e)" unfolding m_def by (simp only: round_half_even_int)
    then have "of_int m * pow2 e = (of_int n :: rat)" by (simp add: p)
    then show ?thesis using assms by blast
  qed
  then obtain k where k: "0 \<le> k" "of_int m * pow2 e = (of_int k :: rat)" by blast
  from to_double_pos [OF pos]
  have "to_double (of_int n) = (if 1024 < bitlen m + e then PInf else Fin (of_int k))"
    unfolding e_def [symmetric] m_def [symmetric] k(2) .
  then show ?thesis using k(1) by simp
qed

lemma Number_str_shape:
  assumes "digits s"
  shows "is_nat_num (Number_str s) \<or> Number_str s = PInf"
proof -
  have "0 \<le> dec s" using assms by (intro dec_nonneg) (simp add: digits_def)
  from to_double_nat_shape [OF this] show ?thesis
    unfolding Number_str_digits [OF assms] by blast
qed

lemma join_commas_chars:
  "list_all digits ds \<Longrightarrow> c \<in> set (join_commas ds) \<Longrightarrow> is_digit c \<or> c = CHR '',''"
  by (induction ds rule: join_commas.induct) (auto simp: digits_def list_all_iff)

lemma parseZoomRange_commas:
  assumes "ds \<noteq> []" "list_all digits ds"
  shows "parseZoomRange (Str (join_commas ds)) = Inr (sortBy (map Number_str ds))"
proof -
  have "CHR ''-'' \<notin> set (join_commas ds)"
    using join_commas_chars [OF assms(2), of "CHR ''-''"] by (auto simp: is_digit_def)
  then have ix: "\<not> indexOf (join_commas ds) ''-'' > - 1" by (simp add: indexOf_char)
  obtain d es where ds: "ds = d # es" using assms(1) by (cases ds) auto
  have sp: "str_split (join_commas ds) (CHR '','') = ds"
    using str_split_join [of d es] assms(2) unfolding ds by simp
  show ?thesis using ix by (simp add: parseZoomRange_def sp)
qed

text \<open>
  C5. For every comma-separated zoom list (one or more numerals joined by commas), the
  zoom parser returns the numbers parsed from the pieces, sorted in ascending order,
  with the same elements counted with multiplicity (no duplicate is removed). Each piece
  of value at most \<open>2^53\<close> is parsed as exactly that integer. In particular \<open>"9,3,5"\<close>
  yields \<open>[3,5,9]\<close> and \<open>"3,3,5"\<close> yields \<open>[3,3,5]\<close>.
\<close>
theorem parseZoomRange_sorts_list_keeping_duplicates:
  assumes "ds \<noteq> []" "list_all digits ds"
  shows "parseZoomRange (Str (join_commas ds)) = Inr (sortBy (map Number_str ds))
       \<and> sorted (map num_key (sortBy (map Number_str ds)))
       \<and> mset (sortBy (map Number_str ds)) = mset (map Number_str ds)
       \<and> (list_all (\<lambda>d. dec d \<le> 2 ^ 53) ds \<longrightarrow>
            map Number_str ds = map (\<lambda>d. Fin (of_int (dec d))) ds)
       \<and> parseZoomRange (Str ''9,3,5'') = Inr [Fin 3, Fin 5, Fin 9]
       \<and> parseZoomRange (Str ''3,3,5'') = Inr [Fin 3, Fin 3, Fin 5]"
proof -
  have 1: "parseZoomRange (Str (join_commas ds)) = Inr (sortBy (map Number_str ds))"
    by (rule parseZoomRange_commas [OF assms])
  have 2: "sorted (map num_key (sortBy (map Number_str ds)))"
    by (simp add: sortBy_def)
  have 3: "mset (sortBy (map Number_str ds)) = mset (map Number_str ds)"
    by (simp add: sortBy_def)
  have 4: "list_all (\<lambda>d. dec d \<le> 2 ^ 53) ds \<longrightarrow>
            map Number_str ds = map (\<lambda>d. Fin (of_int (dec d))) ds"
  proof
    assume b: "list_all (\<lambda>d. dec d \<le> 2 ^ 53) ds"
    have "Number_str d = Fin (of_int (dec d))" if "d \<in> set ds" for d
    proof -
      have d: "digits d" "dec d \<le> 2 ^ 53" using that assms(2) b by (auto simp: list_all_iff)
      then have "0 \<le> dec d" by (intro dec_nonneg) (simp add: digits_def)
      then show ?thesis
        using Number_str_digits [OF d(1)] to_double_int_exact [of "dec d"] d(2) by simp
    qed
    then show "map Number_str ds = map (\<lambda>d. Fin (of_int (dec d))) ds" by simp
  qed
  have 5: "parseZoomRange (Str ''9,3,5'') = Inr [Fin 3, Fin 5, Fin 9]" by code_simp
  have 6: "parseZoomRange (Str ''3,3,5'') = Inr [Fin 3, Fin 3, Fin 5]" by code_simp
  show ?thesis using 1 2 3 4 5 6 by blast
qed

theorem parseZoomRange_sorts_list_witness:
  "[''9'', ''3'', ''5''] \<noteq> [] \<and> list_all digits [''9'', ''3'', ''5'']
   \<and> join_commas [''9'', ''3'', ''5''] = ''9,3,5''
   \<and> parseZoomRange (Str ''9,3,5'') = Inr (sortBy [Fin 9, Fin 3, Fin 5])
   \<and> sortBy [Fin 9, Fin 3, Fin 5] = [Fin 3, Fin 5, Fin 9]"
proof -
  have h: "[''9'', ''3'', ''5''] \<noteq> []" "list_all digits [''9'', ''3'', ''5'']"
    by (simp_all add: digits_def is_digit_def)
  have n: "map Number_str [''9'', ''3'', ''5''] = [Fin 9, Fin 3, Fin 5]" by code_simp
  have s: "sortBy [Fin 9, Fin 3, Fin 5] = [Fin 3, Fin 5, Fin 9]" by (simp add: sortBy_def)
  show ?thesis
    using parseZoomRange_sorts_list_keeping_duplicates [OF h] h s unfolding n by simp
qed

text \<open>
  C4 (amended). For all natural numbers \<open>a \<le> b\<close> with \<open>b < 2^53\<close> and fewer than \<open>2^32\<close>
  values from \<open>a\<close> to \<open>b\<close>, parsing the zoom range string \<open>"a-b"\<close> (the decimal
  numerals of \<open>a\<close> and \<open>b\<close> around a dash) yields exactly the ascending inclusive
  sequence \<open>[a, a+1, \<dots>, b]\<close>. The bounds are needed: numbers are doubles, so from
  \<open>2^53\<close> on neither the numeral nor \<open>max + 1\<close> is exact, and \<open>"2^53-(2^53+1)"\<close> yields the
  empty sequence.
\<close>
theorem parseZoomRange_inclusive_range:
  assumes "a \<le> b" "b < 2 ^ 53" "b - a < 4294967295"
  shows "parseZoomRange (Str (numeral_of a @ ''-'' @ numeral_of b))
           = Inr (map (\<lambda>i. Fin (of_nat i)) [a..<Suc b])"
  using parseZoomRange_range [of "numeral_of a" "numeral_of b" a b] numeral_of_props assms
  by simp

theorem parseZoomRange_inclusive_range_witness:
  "(3::nat) \<le> 9 \<and> (9::nat) < 2 ^ 53 \<and> (9::nat) - 3 < 4294967295
   \<and> numeral_of 3 @ ''-'' @ numeral_of 9 = ''3-9''
   \<and> parseZoomRange (Str ''3-9'') = Inr [Fin 3, Fin 4, Fin 5, Fin 6, Fin 7, Fin 8, Fin 9]"
proof -
  have h: "(3::nat) \<le> 9" "(9::nat) < 2 ^ 53" "(9::nat) - 3 < 4294967295" by simp_all
  have n: "numeral_of 3 @ ''-'' @ numeral_of 9 = ''3-9''"
    by (simp add: numeral_of.simps digit_char_def)
  have u: "map (\<lambda>i. Fin (of_nat i)) [3..<Suc 9] = [Fin 3, Fin 4, Fin 5, Fin 6, Fin 7, Fin 8, Fin 9]"
    by code_simp
  show ?thesis
    using parseZoomRange_inclusive_range [OF h] h unfolding n u by simp
qed

theorem parseZoomRange_inclusive_range_counterexample:
  "(9007199254740992::nat) \<le> 9007199254740993
   \<and> numeral_of 9007199254740992 @ ''-'' @ numeral_of 9007199254740993
       = ''9007199254740992-9007199254740993''
   \<and> parseZoomRange (Str ''9007199254740992-9007199254740993'') = Inr []
   \<and> map (\<lambda>i. Fin (of_nat i)) [9007199254740992..<Suc 9007199254740993] \<noteq> []
   \<and> parseZoomRange (Str ''0-4294967295'') = Inl (NativeError ''RangeError'')"
proof -
  have r: "parseZoomRange (Str ''0-4294967295'') = Inl (NativeError ''RangeError'')"
    by code_simp
  have n: "numeral_of 9007199254740992 @ ''-'' @ numeral_of 9007199254740993
       = ''9007199254740992-9007199254740993''"
    by (simp add: numeral_of.simps digit_char_def)
  have p: "parseZoomRange (Str ''9007199254740992-9007199254740993'') = Inr []"
    by code_simp
  show ?thesis using n p r by simp
qed


lemma sortBy_props:
  "length (sortBy nums) = length nums" "set (sortBy nums) = set nums"
  "sorted (map num_key (sortBy nums))"
  by (simp_all add: sortBy_def)

lemma ascending_nats:
  "sorted_wrt (\<lambda>x y. num_key x < num_key y) (map (\<lambda>i. Fin (of_nat i)) [a..<b])"
  "distinct (map (\<lambda>i. Fin (of_nat i)) [a..<b])"
  "list_all is_nat_num (map (\<lambda>i. Fin (of_nat i)) [a..<b])"
proof -
  have "sorted_wrt (\<lambda>i j. num_key (Fin (of_nat i)) < num_key (Fin (of_nat j))) [a..<b]"
    using sorted_wrt_upt [of a b] by (rule sorted_wrt_mono_rel [rotated]) simp
  then show "sorted_wrt (\<lambda>x y. num_key x < num_key y) (map (\<lambda>i. Fin (of_nat i)) [a..<b])"
    by (simp add: sorted_wrt_map)
  show "distinct (map (\<lambda>i. Fin (of_nat i)) [a..<b])"
    by (simp add: distinct_map inj_on_def)
  show "list_all is_nat_num (map (\<lambda>i. Fin (of_nat i)) [a..<b])"
    by (simp add: list_all_iff)
qed

lemma zoom_shapes:
  "rx_full rx_zoom s \<longleftrightarrow>
     (\<exists>ds. ds \<noteq> [] \<and> list_all digits ds \<and> s = join_commas ds) \<or>
     (\<exists>sa sb. digits sa \<and> digits sb \<and> s = sa @ ''-'' @ sb)"
proof -
  have "(\<exists>d ds. digits d \<and> list_all digits ds \<and> s = d @ concat (map ((#) (CHR '','')) ds))
      \<longleftrightarrow> (\<exists>ds. ds \<noteq> [] \<and> list_all digits ds \<and> s = join_commas ds)"
  proof
    assume "\<exists>d ds. digits d \<and> list_all digits ds \<and> s = d @ concat (map ((#) (CHR '','')) ds)"
    then obtain d ds where "digits d" "list_all digits ds" "s = join_commas (d # ds)"
      unfolding join_commas_Cons by blast
    then have "d # ds \<noteq> [] \<and> list_all digits (d # ds) \<and> s = join_commas (d # ds)" by simp
    then show "\<exists>ds. ds \<noteq> [] \<and> list_all digits ds \<and> s = join_commas ds" by blast
  next
    assume "\<exists>ds. ds \<noteq> [] \<and> list_all digits ds \<and> s = join_commas ds"
    then obtain d ds where "list_all digits (d # ds)" "s = join_commas (d # ds)"
      by (metis list.exhaust)
    then have "digits d \<and> list_all digits ds \<and> s = d @ concat (map ((#) (CHR '','')) ds)"
      unfolding join_commas_Cons by simp
    then show "\<exists>d ds. digits d \<and> list_all digits ds \<and> s = d @ concat (map ((#) (CHR '','')) ds)"
      by blast
  qed
  then show ?thesis unfolding rx_zoom_iff by auto
qed

text \<open>
  C3 (amended). The zoom grammar accepts exactly the comma-separated lists of numerals
  and the ranges of two numerals around a dash. For a list, the zoom parser returns a
  non-empty sequence in ascending order whose elements are non-negative integers
  (\<open>Infinity\<close> for a numeral beyond the range of a double); the order is not strict,
  duplicates are kept. For a range \<open>a-b\<close> with \<open>a \<le> b < 2^53\<close> and fewer than \<open>2^32\<close>
  values, it returns a non-empty, strictly ascending sequence of distinct non-negative
  integers. Nothing is stated for a reversed or a larger range.
\<close>
theorem parseZoomRange_invariant:
  "(rx_full rx_zoom s \<longleftrightarrow>
      (\<exists>ds. ds \<noteq> [] \<and> list_all digits ds \<and> s = join_commas ds) \<or>
      (\<exists>sa sb. digits sa \<and> digits sb \<and> s = sa @ ''-'' @ sb))
   \<and> (ds \<noteq> [] \<and> list_all digits ds \<longrightarrow>
        (\<exists>zs. parseZoomRange (Str (join_commas ds)) = Inr zs \<and> zs \<noteq> []
            \<and> sorted (map num_key zs)
            \<and> list_all (\<lambda>z. is_nat_num z \<or> z = PInf) zs))
   \<and> (digits sa \<and> digits sb \<and> dec sa \<le> dec sb \<and> dec sb < 2 ^ 53
          \<and> dec sb - dec sa < 4294967295 \<longrightarrow>
        (\<exists>zs. parseZoomRange (Str (sa @ ''-'' @ sb)) = Inr zs \<and> zs \<noteq> []
            \<and> sorted_wrt (\<lambda>x y. num_key x < num_key y) zs
            \<and> distinct zs
            \<and> list_all is_nat_num zs))"
proof (intro conjI impI)
  show "rx_full rx_zoom s \<longleftrightarrow>
      (\<exists>ds. ds \<noteq> [] \<and> list_all digits ds \<and> s = join_commas ds) \<or>
      (\<exists>sa sb. digits sa \<and> digits sb \<and> s = sa @ ''-'' @ sb)"
    by (rule zoom_shapes)
next
  assume h: "ds \<noteq> [] \<and> list_all digits ds"
  let ?zs = "sortBy (map Number_str ds)"
  have 1: "parseZoomRange (Str (join_commas ds)) = Inr ?zs"
    using h by (intro parseZoomRange_commas) simp_all
  have 2: "?zs \<noteq> []" using h sortBy_props(1) [of "map Number_str ds"] by auto
  have 3: "sorted (map num_key ?zs)" by (rule sortBy_props(3))
  have "is_nat_num z \<or> z = PInf" if "z \<in> set ?zs" for z
  proof -
    from that obtain d where "d \<in> set ds" "z = Number_str d"
      unfolding sortBy_props(2) by auto
    then show ?thesis using h Number_str_shape [of d] by (auto simp: list_all_iff)
  qed
  then have 4: "list_all (\<lambda>z. is_nat_num z \<or> z = PInf) ?zs" by (simp add: list_all_iff)
  show "\<exists>zs. parseZoomRange (Str (join_commas ds)) = Inr zs \<and> zs \<noteq> []
            \<and> sorted (map num_key zs)
            \<and> list_all (\<lambda>z. is_nat_num z \<or> z = PInf) zs"
    using 1 2 3 4 by blast
next
  assume h: "digits sa \<and> digits sb \<and> dec sa \<le> dec sb \<and> dec sb < 2 ^ 53
          \<and> dec sb - dec sa < 4294967295"
  have a0: "0 \<le> dec sa" using h by (intro dec_nonneg) (simp add: digits_def)
  have b0: "0 \<le> dec sb" using h by (intro dec_nonneg) (simp add: digits_def)
  define a b where "a = nat (dec sa)" and "b = nat (dec sb)"
  have ab: "dec sa = int a" "dec sb = int b" using a0 b0 by (simp_all add: a_def b_def)
  from h have "dec sa \<le> dec sb" "dec sb < 2 ^ 53" "dec sb - dec sa < 4294967295"
    by blast+
  then have iab: "int a \<le> int b" "int b < 2 ^ 53" "int b - int a < 4294967295"
    by (simp_all only: ab)
  have le: "a \<le> b" using iab(1) by simp
  have b53: "b < 2 ^ 53" using iab(2) by (metis of_nat_less_iff of_nat_numeral of_nat_power)
  have sz: "b - a < 4294967295" using iab(3) le by linarith
  let ?zs = "map (\<lambda>i. Fin (of_nat i)) [a..<Suc b]"
  have 1: "parseZoomRange (Str (sa @ ''-'' @ sb)) = Inr ?zs"
    using parseZoomRange_range [of sa sb a b] h ab le b53 sz by simp
  have 2: "?zs \<noteq> []" using le by simp
  show "\<exists>zs. parseZoomRange (Str (sa @ ''-'' @ sb)) = Inr zs \<and> zs \<noteq> []
            \<and> sorted_wrt (\<lambda>x y. num_key x < num_key y) zs
            \<and> distinct zs
            \<and> list_all is_nat_num zs"
    using 1 2 ascending_nats [of a "Suc b"] by blast
qed

theorem parseZoomRange_invariant_witness:
  "rx_full rx_zoom ''3-9''
   \<and> [''9'', ''3'', ''5''] \<noteq> [] \<and> list_all digits [''9'', ''3'', ''5'']
   \<and> (\<exists>zs. parseZoomRange (Str ''9,3,5'') = Inr zs \<and> zs \<noteq> []
            \<and> sorted (map num_key zs)
            \<and> list_all (\<lambda>z. is_nat_num z \<or> z = PInf) zs)
   \<and> digits ''3'' \<and> digits ''9'' \<and> dec ''3'' \<le> dec ''9'' \<and> dec ''9'' < 2 ^ 53
   \<and> dec ''9'' - dec ''3'' < 4294967295
   \<and> (\<exists>zs. parseZoomRange (Str ''3-9'') = Inr zs \<and> zs \<noteq> []
            \<and> sorted_wrt (\<lambda>x y. num_key x < num_key y) zs
            \<and> distinct zs
            \<and> list_all is_nat_num zs)"
proof -
  have h1: "[''9'', ''3'', ''5''] \<noteq> [] \<and> list_all digits [''9'', ''3'', ''5'']"
    by (simp add: digits_def is_digit_def)
  have h2: "digits ''3'' \<and> digits ''9'' \<and> dec ''3'' \<le> dec ''9'' \<and> dec ''9'' < 2 ^ 53
      \<and> dec ''9'' - dec ''3'' < 4294967295"
    by (simp add: digits_def is_digit_def dec_def digit_val_def)
  have m: "rx_full rx_zoom ''3-9''"
    by (simp add: rx_zoom_def some_def is_digit_def)
  show ?thesis
    using parseZoomRange_invariant [of "''3-9''" "[''9'', ''3'', ''5'']" "''3''" "''9''"] h1 h2 m
    by simp
qed

theorem parseZoomRange_invariant_counterexample:
  "rx_full rx_zoom ''3,3,5''
   \<and> parseZoomRange (Str ''3,3,5'') = Inr [Fin 3, Fin 3, Fin 5]
   \<and> \<not> distinct [Fin 3, Fin 3, Fin 5]
   \<and> rx_full rx_zoom ''9-3''
   \<and> parseZoomRange (Str ''9-3'') = Inr [Fin 9, Fin 8, Fin 7, Fin 6, Fin 5]
   \<and> \<not> sorted (map num_key [Fin 9, Fin 8, Fin 7, Fin 6, Fin 5])"
proof -
  have m': "rx_full rx_zoom ''9-3''"
    by (simp add: rx_zoom_def some_def is_digit_def)
  have p': "parseZoomRange (Str ''9-3'') = Inr [Fin 9, Fin 8, Fin 7, Fin 6, Fin 5]"
    by code_simp
  have m: "rx_full rx_zoom ''3,3,5''"
    by (simp add: rx_zoom_def some_def is_digit_def)
  have p: "parseZoomRange (Str ''3,3,5'') = Inr [Fin 3, Fin 3, Fin 5]"
    by code_simp
  show ?thesis using m p m' p' by simp
qed

subsection \<open>The buffer\<close>

lemma takeWhile_digits_stop:
  assumes "list_all is_digit ip" "u = [] \<or> \<not> is_digit (hd u)"
  shows "takeWhile is_digit (ip @ u) = ip" "dropWhile is_digit (ip @ u) = u"
proof -
  have a: "\<forall>c\<in>set ip. is_digit c" using assms(1) by (simp add: list_all_iff)
  have t: "takeWhile is_digit u = []" and d: "dropWhile is_digit u = u"
    using assms(2) by (cases u; simp)+
  show "takeWhile is_digit (ip @ u) = ip" using a t by (simp add: takeWhile_append2)
  show "dropWhile is_digit (ip @ u) = u" using a d by (simp add: dropWhile_append2)
qed

lemma stops_numeral_simps:
  assumes "stops_numeral u"
  shows "u = [] \<or> \<not> is_digit (hd u)" "(u \<noteq> [] \<and> hd u = CHR ''.'') = False"
    "str_exponent u = (0, u)"
  using assms by (cases u; simp add: stops_numeral_def str_exponent_def)+

lemma signed_literal_start:
  assumes "digits ip"
  shows "signed_literal (ip @ u) = 
     (case str_decimal (ip @ u) of None \<Rightarrow> None
      | Some (LInfinity, r) \<Rightarrow> Some (PInf, r)
      | Some (LValue v, r) \<Rightarrow> Some (to_double v, r))"
    and "dropWhile is_space (ip @ u) = ip @ u"
    and "\<not> prefix ''Infinity'' (ip @ u)"
proof -
  obtain c t where ip: "ip = c # t" and c: "is_digit c"
    using assms by (cases ip) (auto simp: digits_def)
  have cs: "c \<noteq> CHR ''-''" "c \<noteq> CHR ''+''" "c \<noteq> CHR ''I''" using c by (auto simp: is_digit_def)
  show "signed_literal (ip @ u) = 
     (case str_decimal (ip @ u) of None \<Rightarrow> None
      | Some (LInfinity, r) \<Rightarrow> Some (PInf, r)
      | Some (LValue v, r) \<Rightarrow> Some (to_double v, r))"
    using cs by (simp add: signed_literal_def ip split: option.splits prod.splits literal.splits)
  show "dropWhile is_space (ip @ u) = ip @ u"
    using digit_not_space [OF c] by (simp add: ip)
  show "\<not> prefix ''Infinity'' (ip @ u)" using cs by (simp add: ip)
qed

lemma parseFloat_str_integer:
  assumes "digits ip" "stops_numeral u"
  shows "parseFloat_str (ip @ u) = to_double (of_int (dec ip))"
proof -
  have l: "list_all is_digit ip" "ip \<noteq> []" using assms(1) by (simp_all add: digits_def)
  note st = stops_numeral_simps [OF assms(2)]
  note tw = takeWhile_digits_stop [OF l(1) st(1)]
  have "str_decimal (ip @ u) = Some (LValue (of_int (dec ip)), u)"
    using signed_literal_start(3) [OF assms(1), of u] l(2)
    by (simp add: str_decimal_def tw st(2,3) Let_def pow10_def dec_def)
  then show ?thesis
    by (simp add: parseFloat_str_def signed_literal_start(1,2) [OF assms(1)])
qed

lemma parseFloat_str_fraction:
  assumes "digits ip" "list_all is_digit fp" "stops_numeral u"
  shows "parseFloat_str (ip @ ''.'' @ fp @ u) =
           to_double (of_int (dec ip) + of_int (dec fp) / 10 ^ length fp)"
proof -
  have l: "list_all is_digit ip" "ip \<noteq> []" using assms(1) by (simp_all add: digits_def)
  note st = stops_numeral_simps [OF assms(3)]
  have nd: "''.'' @ fp @ u = [] \<or> \<not> is_digit (hd (''.'' @ fp @ u))" by (simp add: is_digit_def)
  note tw = takeWhile_digits_stop [OF l(1) nd]
  note tf = takeWhile_digits_stop [OF assms(2) st(1)]
  have "str_decimal (ip @ ''.'' @ fp @ u) =
      Some (LValue (of_int (dec ip) + of_int (dec fp) / 10 ^ length fp), u)"
    using signed_literal_start(3) [OF assms(1), of "''.'' @ fp @ u"] l(2) tw tf
    by (simp add: str_decimal_def st(3) Let_def pow10_def)
  then show ?thesis
    using signed_literal_start(1,2) [OF assms(1), of "''.'' @ fp @ u"]
    by (simp add: parseFloat_str_def)
qed

text \<open>The reader of exponents against the grammar.\<close>

lemma is_space_iff:
  "is_space c \<longleftrightarrow> c \<in> {CHR 0x09, CHR 0x0A, CHR 0x0B, CHR 0x0C, CHR 0x0D, CHR 0x20, CHR 0xA0}"
proof
  assume "is_space c"
  then have "of_char c \<in> {9, 10, 11, 12, 13, 32, 160 :: int}" by (simp add: is_space_def)
  then have "of_char c \<in> (of_char ` {CHR 0x09, CHR 0x0A, CHR 0x0B, CHR 0x0C, CHR 0x0D, CHR 0x20, CHR 0xA0} :: int set)"
    by simp
  then show "c \<in> {CHR 0x09, CHR 0x0A, CHR 0x0B, CHR 0x0C, CHR 0x0D, CHR 0x20, CHR 0xA0}"
    by (simp only: inj_image_mem_iff [OF inj_of_char])
next
  assume "c \<in> {CHR 0x09, CHR 0x0A, CHR 0x0B, CHR 0x0C, CHR 0x0D, CHR 0x20, CHR 0xA0}"
  then show "is_space c" by (auto simp: is_space_def)
qed

lemma digit_chars:
  assumes "is_digit c"
  shows "c \<noteq> CHR ''+''" "c \<noteq> CHR ''-''" "c \<noteq> CHR ''.''" "c \<noteq> CHR ''e''" "c \<noteq> CHR ''E''"
    "c \<noteq> CHR ''I''" "\<not> is_space c"
  using assms by (auto simp: is_digit_def is_space_def)

lemma digits_split:
  "list_all is_digit ds \<Longrightarrow> y = [] \<or> \<not> is_digit (hd y) \<Longrightarrow>
     takeWhile is_digit (ds @ y) = ds \<and> dropWhile is_digit (ds @ y) = y"
  using takeWhile_digits_stop [of ds y] by simp

lemma exponent_part_Nil: "exponent_part [] k \<longleftrightarrow> k = 0"
  by (simp add: exponent_part_def)

lemma exponent_partI:
  assumes "c = CHR ''e'' \<or> c = CHR ''E''" "digits ds" "sg = [] \<or> sg = ''+'' \<or> sg = ''-''"
  shows "\<exists>k. exponent_part (c # sg @ ds) k"
proof -
  define k where "k = (if sg = ''-'' then - dec ds else dec ds)"
  have "sg = [] \<and> k = dec ds \<or> sg = ''+'' \<and> k = dec ds \<or> sg = ''-'' \<and> k = - dec ds"
    using assms(3) by (auto simp: k_def)
  then have "(c = CHR ''e'' \<or> c = CHR ''E'') \<and> digits ds \<and> c # sg @ ds = c # sg @ ds \<and>
      (sg = [] \<and> k = dec ds \<or> sg = ''+'' \<and> k = dec ds \<or> sg = ''-'' \<and> k = - dec ds)"
    using assms(1,2) by simp
  then have "exponent_part (c # sg @ ds) k" unfolding exponent_part_def by blast
  then show ?thesis ..
qed

lemma exponent_partE:
  assumes "exponent_part x k" "x \<noteq> []"
  obtains c sg ds where "c = CHR ''e'' \<or> c = CHR ''E''" "digits ds" "x = c # sg @ ds"
    "sg = [] \<and> k = dec ds \<or> sg = ''+'' \<and> k = dec ds \<or> sg = ''-'' \<and> k = - dec ds"
proof -
  from assms have "\<exists>c sg ds. (c = CHR ''e'' \<or> c = CHR ''E'') \<and> digits ds \<and> x = c # sg @ ds \<and>
         (sg = [] \<and> k = dec ds \<or> sg = ''+'' \<and> k = dec ds \<or> sg = ''-'' \<and> k = - dec ds)"
    unfolding exponent_part_def by simp
  then show ?thesis using that by blast
qed

lemma str_exponent_sound:
  assumes "str_exponent y = (k, r)"
  shows "\<exists>x. y = x @ r \<and> exponent_part x k"
proof (cases "\<exists>c t. y = c # t \<and> (c = CHR ''e'' \<or> c = CHR ''E'')")
  case False
  then have "str_exponent y = (0, y)" by (cases y) (auto simp: str_exponent_def)
  then have "y = [] @ r \<and> exponent_part [] k" using assms by (simp add: exponent_part_Nil)
  then show ?thesis by blast
next
  case True
  then obtain c t where y: "y = c # t" and c: "c = CHR ''e'' \<or> c = CHR ''E''" by blast
  define sg where "sg = (if t \<noteq> [] \<and> (hd t = CHR ''-'' \<or> hd t = CHR ''+'') then [hd t] else [])"
  define u where "u = (if t \<noteq> [] \<and> (hd t = CHR ''-'' \<or> hd t = CHR ''+'') then tl t else t)"
  define ds where "ds = takeWhile is_digit u"
  have t: "t = sg @ u" by (cases t) (auto simp: sg_def u_def)
  have u: "u = ds @ dropWhile is_digit u" by (simp add: ds_def)
  have se: "str_exponent y =
      (if ds = [] then (0, y)
       else (if t \<noteq> [] \<and> hd t = CHR ''-'' then - dec ds else dec ds, dropWhile is_digit u))"
    using c by (simp add: str_exponent_def y Let_def u_def ds_def)
  show ?thesis
  proof (cases "ds = []")
    case True
    then have "y = [] @ r \<and> exponent_part [] k" using se assms by (simp add: exponent_part_Nil)
    then show ?thesis by blast
  next
    case False
    then have k: "k = (if t \<noteq> [] \<and> hd t = CHR ''-'' then - dec ds else dec ds)"
      and r: "r = dropWhile is_digit u"
      using se assms by simp_all
    have d: "digits ds" using False by (simp add: digits_def ds_def list_all_iff) (meson set_takeWhileD)
    have yy: "y = (c # sg @ ds) @ r" using y t u r by simp
    have sgk: "sg = [] \<and> k = dec ds \<or> sg = ''+'' \<and> k = dec ds \<or> sg = ''-'' \<and> k = - dec ds"
      unfolding k sg_def by (cases t) auto
    have "exponent_part (c # sg @ ds) k"
      unfolding exponent_part_def using c d sgk by blast
    then show ?thesis using yy by blast
  qed
qed

lemma str_exponent_complete:
  assumes "exponent_part x k" "x \<noteq> []" "r = [] \<or> \<not> is_digit (hd r)"
  shows "str_exponent (x @ r) = (k, r)"
proof -
  from assms(1,2) obtain c sg ds where c: "c = CHR ''e'' \<or> c = CHR ''E''" and d: "digits ds"
    and x: "x = c # sg @ ds"
    and sgk: "sg = [] \<and> k = dec ds \<or> sg = ''+'' \<and> k = dec ds \<or> sg = ''-'' \<and> k = - dec ds"
    by (rule exponent_partE)
  obtain a ds' where ds: "ds = a # ds'" and a: "is_digit a"
    using d by (cases ds) (auto simp: digits_def)
  have la: "list_all is_digit ds" using d by (simp add: digits_def)
  note sp = digits_split [OF la assms(3)]
  from sgk show ?thesis
  proof (elim disjE conjE)
    assume "sg = []" "k = dec ds"
    then show ?thesis
      using c sp digit_chars(1,2) [OF a] by (auto simp: str_exponent_def x Let_def ds)
  next
    assume "sg = ''+''" "k = dec ds"
    then show ?thesis
      using c sp by (auto simp: str_exponent_def x Let_def ds)
  next
    assume "sg = ''-''" "k = - dec ds"
    then show ?thesis
      using c sp by (auto simp: str_exponent_def x Let_def ds)
  qed
qed

lemma str_exponent_none:
  assumes "\<And>x k. x \<noteq> [] \<Longrightarrow> exponent_part x k \<Longrightarrow> \<not> prefix x y"
  shows "str_exponent y = (0, y)"
proof -
  obtain k r where kr: "str_exponent y = (k, r)" by (cases "str_exponent y")
  from str_exponent_sound [OF kr] obtain x where x: "y = x @ r" "exponent_part x k" by blast
  have "x = []" using assms [of x k] x by auto
  then show ?thesis using x kr by (simp add: exponent_part_Nil)
qed


lemma exponent_part_extend:
  assumes "exponent_part x k" "x \<noteq> []" "is_digit d"
  shows "\<exists>k'. exponent_part (x @ [d]) k'"
proof -
  from assms(1,2) obtain c sg ds where c: "c = CHR ''e'' \<or> c = CHR ''E''" and d: "digits ds"
    and x: "x = c # sg @ ds"
    and sg: "sg = [] \<and> k = dec ds \<or> sg = ''+'' \<and> k = dec ds \<or> sg = ''-'' \<and> k = - dec ds"
    by (rule exponent_partE)
  have d': "digits (ds @ [d])" using d assms(3) by (simp add: digits_def)
  have s': "sg = [] \<or> sg = ''+'' \<or> sg = ''-''" using sg by blast
  have "x @ [d] = c # sg @ (ds @ [d])" by (simp add: x)
  then show ?thesis using exponent_partI [OF c d' s'] by simp
qed

lemma str_exponent_longest:
  assumes "exponent_part x k"
    and "\<And>x' k'. exponent_part x' k' \<Longrightarrow> prefix x' (x @ r) \<Longrightarrow> length x' \<le> length x"
  shows "str_exponent (x @ r) = (k, r)"
proof (cases "x = []")
  case True
  have "str_exponent r = (0, r)"
  proof (rule str_exponent_none)
    fix x' k'
    assume "x' \<noteq> []" "exponent_part x' k'"
    then show "\<not> prefix x' r" using assms(2) [of x' k'] True by auto
  qed
  then show ?thesis using True assms(1) by (simp add: exponent_part_Nil)
next
  case False
  have "r = [] \<or> \<not> is_digit (hd r)"
  proof (rule ccontr)
    assume "\<not> (r = [] \<or> \<not> is_digit (hd r))"
    then obtain d r' where r: "r = d # r'" and d: "is_digit d" by (cases r) auto
    from exponent_part_extend [OF assms(1) False d] obtain k' where "exponent_part (x @ [d]) k'" ..
    moreover have "prefix (x @ [d]) (x @ r)" by (simp add: r)
    ultimately have "length (x @ [d]) \<le> length x" by (rule assms(2))
    then show False by simp
  qed
  then show ?thesis by (rule str_exponent_complete [OF assms(1) False])
qed

text \<open>The reader of unsigned literals finds the longest one, and only literals.\<close>

lemma unsigned_literal_int:
  "list_all is_digit ip \<Longrightarrow> ip \<noteq> [] \<Longrightarrow> exponent_part x k \<Longrightarrow> \<exists>l. unsigned_literal (ip @ x) l"
proof -
  assume a: "list_all is_digit ip" "ip \<noteq> []" "exponent_part x k"
  have "list_all is_digit ip \<and> list_all is_digit [] \<and> exponent_part x k \<and>
      (ip \<noteq> [] \<and> [] = ([] :: string) \<and> ip @ x = ip @ x \<or>
       (ip \<noteq> [] \<or> [] \<noteq> ([] :: string)) \<and> ip @ x = ip @ ''.'' @ [] @ x) \<and>
      LValue ((of_int (dec ip) + of_int (dec []) / 10 ^ length ([] :: string)) * pow10 k)
        = LValue ((of_int (dec ip) + of_int (dec []) / 10 ^ length ([] :: string)) * pow10 k)"
    using a by simp
  then show ?thesis unfolding unsigned_literal_def by blast
qed

lemma unsigned_literal_dot:
  "list_all is_digit ip \<Longrightarrow> list_all is_digit fp \<Longrightarrow> ip \<noteq> [] \<or> fp \<noteq> [] \<Longrightarrow> exponent_part x k \<Longrightarrow>
     \<exists>l. unsigned_literal (ip @ ''.'' @ fp @ x) l"
proof -
  assume a: "list_all is_digit ip" "list_all is_digit fp" "ip \<noteq> [] \<or> fp \<noteq> []"
    "exponent_part x k"
  have "list_all is_digit ip \<and> list_all is_digit fp \<and> exponent_part x k \<and>
      (ip \<noteq> [] \<and> fp = [] \<and> ip @ ''.'' @ fp @ x = ip @ x \<or>
       (ip \<noteq> [] \<or> fp \<noteq> []) \<and> ip @ ''.'' @ fp @ x = ip @ ''.'' @ fp @ x) \<and>
      LValue ((of_int (dec ip) + of_int (dec fp) / 10 ^ length fp) * pow10 k)
        = LValue ((of_int (dec ip) + of_int (dec fp) / 10 ^ length fp) * pow10 k)"
    using a by simp
  then show ?thesis unfolding unsigned_literal_def by blast
qed

lemma exponent_part_hd:
  "exponent_part x k \<Longrightarrow> x \<noteq> [] \<Longrightarrow> hd x = CHR ''e'' \<or> hd x = CHR ''E''"
  unfolding exponent_part_def by auto

lemma str_decimal_complete:
  assumes u: "unsigned_literal u l"
    and M: "\<And>q l'. unsigned_literal q l' \<Longrightarrow> prefix q (u @ r) \<Longrightarrow> length q \<le> length u"
  shows "str_decimal (u @ r) = Some (l, r)"
proof (cases "u = ''Infinity'' \<and> l = LInfinity")
  case True
  then show ?thesis by (simp add: str_decimal_def)
next
  case False
  from u have "u = ''Infinity'' \<and> l = LInfinity \<or>
      (\<exists>ip fp x k. list_all is_digit ip \<and> list_all is_digit fp \<and> exponent_part x k \<and>
         (ip \<noteq> [] \<and> fp = [] \<and> u = ip @ x \<or>
          (ip \<noteq> [] \<or> fp \<noteq> []) \<and> u = ip @ ''.'' @ fp @ x) \<and>
         l = LValue ((of_int (dec ip) + of_int (dec fp) / 10 ^ length fp) * pow10 k))"
    unfolding unsigned_literal_def .
  with False obtain ip fp x k where ip: "list_all is_digit ip" and fp: "list_all is_digit fp"
    and x: "exponent_part x k"
    and form: "ip \<noteq> [] \<and> fp = [] \<and> u = ip @ x \<or> (ip \<noteq> [] \<or> fp \<noteq> []) \<and> u = ip @ ''.'' @ fp @ x"
    and l: "l = LValue ((of_int (dec ip) + of_int (dec fp) / 10 ^ length fp) * pow10 k)"
    by blast
  have xe: "x = [] \<or> \<not> is_digit (hd x) \<and> hd x \<noteq> CHR ''.''"
    using exponent_part_hd [OF x] by (auto simp: is_digit_def)
  from form consider (int) "ip \<noteq> []" "fp = []" "u = ip @ x"
    | (dot) "ip \<noteq> [] \<or> fp \<noteq> []" "u = ip @ ''.'' @ fp @ x"
    by blast
  then show ?thesis
  proof cases
    case int
    note ne = int(1) and f0 = int(2) and uu = int(3)
    define y where "y = x @ r"
    have ex: "str_exponent y = (k, r)"
      unfolding y_def
    proof (rule str_exponent_longest [OF x])
      fix x' k'
      assume a: "exponent_part x' k'" "prefix x' (x @ r)"
      from unsigned_literal_int [OF ip ne a(1)] obtain l' where "unsigned_literal (ip @ x') l'" ..
      moreover have "prefix (ip @ x') (u @ r)" using a(2) by (simp add: uu)
      ultimately have "length (ip @ x') \<le> length u" by (rule M)
      then show "length x' \<le> length x" by (simp add: uu)
    qed
    have stop: "y = [] \<or> \<not> is_digit (hd y)"
    proof (rule ccontr)
      assume "\<not> (y = [] \<or> \<not> is_digit (hd y))"
      then obtain d r' where xr: "x @ r = d # r'" and d: "is_digit d"
        unfolding y_def by (cases "x @ r") auto
      then have x0: "x = []" using xe by (cases x) auto
      have "list_all is_digit (ip @ [d])" using ip d by simp
      from unsigned_literal_int [OF this _ x] obtain l' where "unsigned_literal ((ip @ [d]) @ x) l'"
        by auto
      moreover have "prefix ((ip @ [d]) @ x) (u @ r)" using xr x0 by (simp add: uu)
      ultimately have "length ((ip @ [d]) @ x) \<le> length u" by (rule M)
      then show False by (simp add: uu)
    qed
    have nodot: "(y \<noteq> [] \<and> hd y = CHR ''.'') = False"
    proof -
      have False if "y \<noteq> []" "hd y = CHR ''.''"
      proof -
        from that obtain r' where xr: "x @ r = CHR ''.'' # r'"
          unfolding y_def by (cases "x @ r") auto
        then have x0: "x = []" using xe by (cases x) auto
        have "exponent_part [] 0" by (simp add: exponent_part_Nil)
        from unsigned_literal_dot [OF ip _ _ this, of "[]"] ne
        obtain l' where "unsigned_literal (ip @ ''.'' @ [] @ []) l'" by auto
        moreover have "prefix (ip @ ''.'' @ [] @ []) (u @ r)" using xr x0 by (simp add: uu)
        ultimately have "length (ip @ ''.'' @ [] @ []) \<le> length u" by (rule M)
        then show False using x0 by (simp add: uu)
      qed
      then show ?thesis by blast
    qed
    have inf: "\<not> prefix ''Infinity'' (ip @ y)"
      using ne ip digit_chars(6) [of "hd ip"] by (cases ip) auto
    note sp = digits_split [OF ip stop]
    have "str_decimal (ip @ y) = Some (l, r)"
      using inf ne
      by (simp add: str_decimal_def Let_def sp nodot ex l f0)
    then show ?thesis by (simp add: uu y_def)
  next
    case dot
    note ne = dot(1) and uu = dot(2)
    have ex: "str_exponent (x @ r) = (k, r)"
    proof (rule str_exponent_longest [OF x])
      fix x' k'
      assume a: "exponent_part x' k'" "prefix x' (x @ r)"
      from unsigned_literal_dot [OF ip fp ne a(1)] obtain l' where
        "unsigned_literal (ip @ ''.'' @ fp @ x') l'" ..
      moreover have "prefix (ip @ ''.'' @ fp @ x') (u @ r)" using a(2) by (simp add: uu)
      ultimately have "length (ip @ ''.'' @ fp @ x') \<le> length u" by (rule M)
      then show "length x' \<le> length x" by (simp add: uu)
    qed
    define y where "y = x @ r"
    have stop: "y = [] \<or> \<not> is_digit (hd y)"
    proof (rule ccontr)
      assume "\<not> (y = [] \<or> \<not> is_digit (hd y))"
      then obtain d r' where xr: "x @ r = d # r'" and d: "is_digit d"
        unfolding y_def by (cases "x @ r") auto
      then have x0: "x = []" using xe by (cases x) auto
      have "list_all is_digit (fp @ [d])" using fp d by simp
      from unsigned_literal_dot [OF ip this _ x] obtain l' where
        "unsigned_literal (ip @ ''.'' @ (fp @ [d]) @ x) l'" by auto
      moreover have "prefix (ip @ ''.'' @ (fp @ [d]) @ x) (u @ r)" using xr x0 by (simp add: uu)
      ultimately have "length (ip @ ''.'' @ (fp @ [d]) @ x) \<le> length u" by (rule M)
      then show False by (simp add: uu)
    qed
    have inf: "\<not> prefix ''Infinity'' (ip @ ''.'' @ fp @ y)"
      using ip digit_chars(6) [of "hd ip"] by (cases ip) auto
    have d0: "CHR ''.'' # fp @ y = [] \<or> \<not> is_digit (hd (CHR ''.'' # fp @ y))"
      by (simp add: is_digit_def)
    note sp1 = digits_split [OF ip d0]
    note sp2 = digits_split [OF fp stop]
    have ex': "str_exponent y = (k, r)" using ex by (simp add: y_def)
    have "str_decimal (ip @ ''.'' @ fp @ y) = Some (l, r)"
      using inf ne
      by (simp add: str_decimal_def Let_def sp1 sp2 ex' l)
    then show ?thesis by (simp add: uu y_def)
  qed
qed

lemma str_decimal_sound:
  assumes "str_decimal t = Some (l, r)"
  shows "\<exists>u. t = u @ r \<and> unsigned_literal u l"
proof (cases "prefix ''Infinity'' t")
  case True
  then obtain z where "t = ''Infinity'' @ z" by (auto simp: prefix_def)
  then have "t = ''Infinity'' @ r \<and> unsigned_literal ''Infinity'' l"
    using assms by (simp add: str_decimal_def unsigned_literal_def)
  then show ?thesis by blast
next
  case False
  define ip where "ip = takeWhile is_digit t"
  define r1 where "r1 = dropWhile is_digit t"
  define dot where "dot = (r1 \<noteq> [] \<and> hd r1 = CHR ''.'')"
  define fp where "fp = (if dot then takeWhile is_digit (tl r1) else [])"
  define r2 where "r2 = (if dot then dropWhile is_digit (tl r1) else r1)"
  have t: "t = ip @ r1" by (simp add: ip_def r1_def)
  have r1: "r1 = (if dot then ''.'' @ fp @ r2 else r2)"
    by (cases r1) (auto simp: dot_def fp_def r2_def)
  have dg: "list_all is_digit ip" "list_all is_digit fp"
    by (auto simp: ip_def fp_def list_all_iff dest: set_takeWhileD)
  have sd: "str_decimal t =
      (if ip = [] \<and> fp = [] then None
       else case str_exponent r2 of (ex, r3) \<Rightarrow>
         Some (LValue ((of_int (dec ip) + of_int (dec fp) / 10 ^ length fp) * pow10 ex), r3))"
    unfolding ip_def r1_def dot_def fp_def r2_def str_decimal_def Let_def
    using False by (simp only: if_False)
  obtain k r3 where se: "str_exponent r2 = (k, r3)" by (cases "str_exponent r2")
  from str_exponent_sound [OF se] obtain x where x: "r2 = x @ r3" "exponent_part x k" by blast
  have ne: "\<not> (ip = [] \<and> fp = [])" using sd assms by (auto split: if_splits)
  have l: "l = LValue ((of_int (dec ip) + of_int (dec fp) / 10 ^ length fp) * pow10 k)"
    and r: "r = r3"
    using sd assms ne se by (auto split: if_splits)
  show ?thesis
  proof (cases dot)
    case True
    have "ip \<noteq> [] \<or> fp \<noteq> []" using ne by blast
    then have "unsigned_literal (ip @ ''.'' @ fp @ x) l"
      unfolding unsigned_literal_def using dg x(2) l by blast
    moreover have "t = (ip @ ''.'' @ fp @ x) @ r" using t r1 True x(1) r by simp
    ultimately show ?thesis by blast
  next
    case False
    then have f0: "fp = []" by (simp add: fp_def)
    then have "ip \<noteq> []" using ne by blast
    then have "unsigned_literal (ip @ x) l"
      unfolding unsigned_literal_def using dg x(2) l f0 by blast
    moreover have "t = (ip @ x) @ r" using t r1 False x(1) r by simp
    ultimately show ?thesis by blast
  qed
qed

text \<open>The same with the sign.\<close>

lemma unsigned_literal_hd:
  assumes "unsigned_literal u l"
  shows "u \<noteq> []" "hd u \<noteq> CHR ''+''" "hd u \<noteq> CHR ''-''" "\<not> is_space (hd u)"
proof -
  have "u \<noteq> [] \<and> (is_digit (hd u) \<or> hd u = CHR ''.'' \<or> hd u = CHR ''I'')"
  proof (cases "u = ''Infinity''")
    case True
    then show ?thesis by simp
  next
    case False
    with assms obtain ip fp x where ip: "list_all is_digit ip"
      and form: "ip \<noteq> [] \<and> u = ip @ x \<or> u = ip @ ''.'' @ fp @ x"
      unfolding unsigned_literal_def by blast
    then show ?thesis by (cases ip) auto
  qed
  then show "u \<noteq> []" "hd u \<noteq> CHR ''+''" "hd u \<noteq> CHR ''-''" "\<not> is_space (hd u)"
    using digit_chars [of "hd u"] by (auto simp: is_space_def)
qed

lemma str_decimal_literalI:
  assumes "sg = [] \<or> sg = ''+'' \<or> sg = ''-''" "unsigned_literal u l"
  shows "\<exists>n. str_decimal_literal (sg @ u) n"
  unfolding str_decimal_literal_def using assms by blast

lemma signed_literal_complete:
  assumes p: "str_decimal_literal p n"
    and M: "\<And>q n'. str_decimal_literal q n' \<Longrightarrow> prefix q (p @ r) \<Longrightarrow> length q \<le> length p"
  shows "signed_literal (p @ r) = Some (n, r)"
proof -
  from p obtain sg u l where sg: "sg = [] \<or> sg = ''+'' \<or> sg = ''-''" and pp: "p = sg @ u"
    and u: "unsigned_literal u l"
    and n: "n = (case l of
               LInfinity \<Rightarrow> (if sg = ''-'' then NInf else PInf)
             | LValue v \<Rightarrow> to_double (if sg = ''-'' then - v else v))"
    unfolding str_decimal_literal_def by blast
  have sd: "str_decimal (u @ r) = Some (l, r)"
  proof (rule str_decimal_complete [OF u])
    fix q l'
    assume a: "unsigned_literal q l'" "prefix q (u @ r)"
    from str_decimal_literalI [OF sg a(1)] obtain n' where "str_decimal_literal (sg @ q) n'" ..
    moreover have "prefix (sg @ q) (p @ r)" using a(2) by (simp add: pp)
    ultimately have "length (sg @ q) \<le> length p" by (rule M)
    then show "length q \<le> length u" by (simp add: pp)
  qed
  note h = unsigned_literal_hd [OF u]
  obtain a u' where uu: "u = a # u'" using h(1) by (cases u) auto
  have a: "a \<noteq> CHR ''+''" "a \<noteq> CHR ''-''" using h(2,3) by (simp_all add: uu)
  from sg show ?thesis
  proof (elim disjE)
    assume "sg = []"
    then show ?thesis
      using sd a by (cases l) (simp_all add: signed_literal_def pp uu n)
  next
    assume "sg = ''+''"
    then show ?thesis
      using sd by (cases l) (simp_all add: signed_literal_def pp n)
  next
    assume "sg = ''-''"
    then show ?thesis
      using sd by (cases l) (simp_all add: signed_literal_def pp n)
  qed
qed

lemma signed_literal_sound:
  assumes "signed_literal t = Some (n, r)"
  shows "\<exists>p. t = p @ r \<and> str_decimal_literal p n"
proof -
  define sg where "sg = (if t \<noteq> [] \<and> (hd t = CHR ''-'' \<or> hd t = CHR ''+'') then [hd t] else [])"
  define u where "u = (if t \<noteq> [] \<and> (hd t = CHR ''-'' \<or> hd t = CHR ''+'') then tl t else t)"
  have t: "t = sg @ u" by (cases t) (auto simp: sg_def u_def)
  have sg: "sg = [] \<or> sg = ''+'' \<or> sg = ''-''" by (auto simp: sg_def)
  have neg: "(t \<noteq> [] \<and> hd t = CHR ''-'') = (sg = ''-'')" by (cases t) (auto simp: sg_def)
  have sl: "signed_literal t =
      (case str_decimal u of
         None \<Rightarrow> None
       | Some (LInfinity, r) \<Rightarrow> Some (if sg = ''-'' then NInf else PInf, r)
       | Some (LValue v, r) \<Rightarrow> Some (to_double (if sg = ''-'' then - v else v), r))"
    unfolding signed_literal_def Let_def neg u_def ..
  from assms sl obtain l where sd: "str_decimal u = Some (l, r)"
    and n: "n = (case l of
               LInfinity \<Rightarrow> (if sg = ''-'' then NInf else PInf)
             | LValue v \<Rightarrow> to_double (if sg = ''-'' then - v else v))"
    by (auto split: option.splits literal.splits)
  from str_decimal_sound [OF sd] obtain u0 where u0: "u = u0 @ r" "unsigned_literal u0 l" by blast
  have "str_decimal_literal (sg @ u0) n"
    unfolding str_decimal_literal_def using sg u0(2) n by blast
  moreover have "t = (sg @ u0) @ r" using t u0(1) by simp
  ultimately show ?thesis by blast
qed

lemma str_decimal_literal_hd:
  assumes "str_decimal_literal p n"
  shows "p \<noteq> []" "\<not> is_space (hd p)"
proof -
  from assms obtain sg u l where sg: "sg = [] \<or> sg = ''+'' \<or> sg = ''-''" and pp: "p = sg @ u"
    and u: "unsigned_literal u l"
    unfolding str_decimal_literal_def by blast
  note h = unsigned_literal_hd [OF u]
  show "p \<noteq> []" using h(1) by (simp add: pp)
  from sg show "\<not> is_space (hd p)"
    using h(1,4) by (auto simp: pp is_space_def)
qed

lemma dropWhile_spaces:
  assumes "list_all is_space ws" "t = [] \<or> \<not> is_space (hd t)"
  shows "dropWhile is_space (ws @ t) = t"
proof -
  have "dropWhile is_space t = t" using assms(2) by (cases t) auto
  then show ?thesis using assms(1) by (simp add: dropWhile_append2 list_all_iff)
qed

text \<open>\<open>parseFloat\<close> against the grammar: the value of the longest literal after the
  white space, and \<open>NaN\<close> exactly when no literal starts there.\<close>

lemma parseFloat_str_longest:
  assumes "list_all is_space ws" "longest_literal p t" "str_decimal_literal p n"
  shows "parseFloat_str (ws @ t) = n"
proof -
  from assms(2) obtain r where t: "t = p @ r"
    and M: "\<And>q. prefix q t \<Longrightarrow> (\<exists>n'. str_decimal_literal q n') \<Longrightarrow> length q \<le> length p"
    unfolding longest_literal_def by (auto simp: prefix_def)
  have "signed_literal (p @ r) = Some (n, r)"
  proof (rule signed_literal_complete [OF assms(3)])
    fix q n'
    assume "str_decimal_literal q n'" "prefix q (p @ r)"
    then show "length q \<le> length p" using M [of q] t by blast
  qed
  moreover have "dropWhile is_space (ws @ t) = t"
    using str_decimal_literal_hd [OF assms(3)] assms(1) by (intro dropWhile_spaces) (auto simp: t)
  ultimately show ?thesis by (simp add: parseFloat_str_def t)
qed

lemma parseFloat_str_NaN:
  assumes "list_all is_space ws" "t = [] \<or> \<not> is_space (hd t)" "no_literal t"
  shows "parseFloat_str (ws @ t) = NaN"
proof -
  have "signed_literal t = None"
  proof (cases "signed_literal t")
    case (Some a)
    obtain n r where "a = (n, r)" by (cases a)
    with Some signed_literal_sound [of t n r] obtain p where "t = p @ r" "str_decimal_literal p n"
      by blast
    then show ?thesis using assms(3) by (auto simp: no_literal_def)
  qed simp
  then show ?thesis by (simp add: parseFloat_str_def dropWhile_spaces [OF assms(1,2)])
qed

lemma parseFloat_str_not_NaN:
  assumes "list_all is_space ws" "t = [] \<or> \<not> is_space (hd t)" "\<not> no_literal t"
  shows "\<exists>p n. longest_literal p t \<and> str_decimal_literal p n \<and> parseFloat_str (ws @ t) = n"
proof -
  from assms(3) obtain q0 n0 where q0: "prefix q0 t" "str_decimal_literal q0 n0"
    unfolding no_literal_def by blast
  let ?P = "\<lambda>q. prefix q t \<and> (\<exists>n. str_decimal_literal q n)"
  have "?P q0" using q0 by blast
  moreover have "\<forall>q. ?P q \<longrightarrow> length q < Suc (length t)" by (auto dest: prefix_length_le)
  ultimately obtain p where p: "?P p" "\<forall>q. ?P q \<longrightarrow> length q \<le> length p"
    using ex_has_greatest_nat [of ?P q0 length "Suc (length t)"] by blast
  then have ll: "longest_literal p t" unfolding longest_literal_def by blast
  from p(1) obtain n where n: "str_decimal_literal p n" by blast
  from parseFloat_str_longest [OF assms(1) ll n] ll n show ?thesis by blast
qed

lemma exponent_part_chars:
  assumes "exponent_part x k"
  shows "set x \<subseteq> {c. is_digit c} \<union> set ''+-eE''"
proof (cases "x = []")
  case False
  with assms show ?thesis
    by (elim exponent_partE) (auto simp: digits_def list_all_iff)
qed simp

lemma unsigned_literal_chars:
  assumes "unsigned_literal u l"
  shows "set u \<subseteq> {c. is_digit c} \<union> set ''+-.eEInfinity''"
proof (cases "u = ''Infinity''")
  case True
  then show ?thesis by simp
next
  case False
  with assms obtain ip fp x k where d: "list_all is_digit ip" "list_all is_digit fp"
    and x: "exponent_part x k"
    and form: "u = ip @ x \<or> u = ip @ ''.'' @ fp @ x"
    unfolding unsigned_literal_def by blast
  from form show ?thesis
    using d exponent_part_chars [OF x] by (auto simp: list_all_iff)
qed

lemma str_decimal_literal_chars:
  assumes "str_decimal_literal p n"
  shows "set p \<subseteq> {c. is_digit c} \<union> set ''+-.eEInfinity''"
proof -
  from assms obtain sg u l where sg: "sg = [] \<or> sg = ''+'' \<or> sg = ''-''" and pp: "p = sg @ u"
    and u: "unsigned_literal u l"
    unfolding str_decimal_literal_def by blast
  from sg show ?thesis using unsigned_literal_chars [OF u] by (auto simp: pp)
qed

lemma no_literal_Nil: "no_literal []"
  using str_decimal_literal_hd(1) by (auto simp: no_literal_def)

lemma no_literal_Cons:
  assumes "\<not> is_digit c" "c \<notin> set ''+-.eEInfinity''"
  shows "no_literal (c # r)"
  unfolding no_literal_def
proof (intro allI impI notI)
  fix q n
  assume q: "prefix q (c # r)" and l: "str_decimal_literal q n"
  from str_decimal_literal_hd(1) [OF l] q have "c \<in> set q" by (cases q) simp_all
  with str_decimal_literal_chars [OF l] have "c \<in> {c. is_digit c} \<union> set ''+-.eEInfinity''"
    by (rule subsetD)
  with assms show False by blast
qed

lemma longest_literal_stop:
  assumes "str_decimal_literal p n" "\<not> is_digit c" "c \<notin> set ''+-.eEInfinity''"
  shows "longest_literal p (p @ c # r)"
  unfolding longest_literal_def
proof (intro conjI allI impI)
  show "prefix p (p @ c # r)" by simp
  show "\<exists>n. str_decimal_literal p n" using assms(1) by blast
next
  fix q
  assume a: "prefix q (p @ c # r) \<and> (\<exists>n. str_decimal_literal q n)"
  then obtain n' where l: "str_decimal_literal q n'" by blast
  show "length q \<le> length p"
  proof (rule ccontr)
    assume "\<not> length q \<le> length p"
    then have "\<not> prefix q p" by (auto dest: prefix_length_le)
    with a obtain us where us: "q = p @ us" "prefix us (c # r)" by (auto simp: prefix_append)
    with \<open>\<not> length q \<le> length p\<close> have "c \<in> set q" by (cases us) simp_all
    with str_decimal_literal_chars [OF l] have "c \<in> {c. is_digit c} \<union> set ''+-.eEInfinity''"
      by (rule subsetD)
    with assms(2,3) show False by blast
  qed
qed

lemma exponent_part_digits:
  assumes "c = CHR ''e'' \<or> c = CHR ''E''" "digits ds"
  shows "exponent_part (c # ds) (dec ds)"
proof -
  have "(c = CHR ''e'' \<or> c = CHR ''E'') \<and> digits ds \<and> c # ds = c # [] @ ds \<and>
      ([] = [] \<and> dec ds = dec ds \<or> [] = ''+'' \<and> dec ds = dec ds \<or> [] = ''-'' \<and> dec ds = - dec ds)"
    using assms by simp
  then show ?thesis unfolding exponent_part_def by blast
qed

lemma str_decimal_literal_dot:
  assumes "sg = [] \<or> sg = ''+'' \<or> sg = ''-''" "list_all is_digit ip" "list_all is_digit fp"
    "ip \<noteq> [] \<or> fp \<noteq> []" "exponent_part x k"
  shows "str_decimal_literal (sg @ ip @ ''.'' @ fp @ x)
           (to_double (if sg = ''-'' then - ((of_int (dec ip) + of_int (dec fp) / 10 ^ length fp) * pow10 k)
                       else (of_int (dec ip) + of_int (dec fp) / 10 ^ length fp) * pow10 k))"
proof -
  have "list_all is_digit ip \<and> list_all is_digit fp \<and> exponent_part x k \<and>
      (ip \<noteq> [] \<and> fp = [] \<and> ip @ ''.'' @ fp @ x = ip @ x \<or>
       (ip \<noteq> [] \<or> fp \<noteq> []) \<and> ip @ ''.'' @ fp @ x = ip @ ''.'' @ fp @ x) \<and>
      LValue ((of_int (dec ip) + of_int (dec fp) / 10 ^ length fp) * pow10 k)
        = LValue ((of_int (dec ip) + of_int (dec fp) / 10 ^ length fp) * pow10 k)"
    using assms(2-5) by simp
  then have "unsigned_literal (ip @ ''.'' @ fp @ x)
          (LValue ((of_int (dec ip) + of_int (dec fp) / 10 ^ length fp) * pow10 k))"
    unfolding unsigned_literal_def by blast
  then show ?thesis
    unfolding str_decimal_literal_def
    by (intro exI [of _ sg] exI [of _ "ip @ ''.'' @ fp @ x"]
        exI [of _ "LValue ((of_int (dec ip) + of_int (dec fp) / 10 ^ length fp) * pow10 k)"])
       (use assms(1) in simp)
qed

lemma spaces_split:
  "s = takeWhile is_space s @ dropWhile is_space s"
  "list_all is_space (takeWhile is_space s)"
  "dropWhile is_space s = [] \<or> \<not> is_space (hd (dropWhile is_space s))"
proof -
  show "s = takeWhile is_space s @ dropWhile is_space s" by simp
  show "list_all is_space (takeWhile is_space s)"
    by (auto simp: list_all_iff dest: set_takeWhileD)
  show "dropWhile is_space s = [] \<or> \<not> is_space (hd (dropWhile is_space s))"
    using hd_dropWhile [of is_space s] by blast
qed

lemma radius_parseBuffer: "radius (parseBuffer (Str s)) = parseFloat_str s"
  by (simp add: parseBuffer_def parseFloat_def Let_def)

text \<open>
  C10. For every string, the unit of \<open>parseBuffer\<close> is \<open>miles\<close> exactly when the string ends
  in \<open>mi\<close>, \<open>kilometers\<close> otherwise, and the radius is the leading number: the string is
  white space followed by a rest that does not start with white space, and the radius is
  the number denoted by the longest prefix of the rest that is a decimal literal (sign,
  digits, dot, exponent, \<open>Infinity\<close>), rounded to a double, and \<open>NaN\<close> when no prefix of the
  rest is a decimal literal. So the white space is skipped, whatever follows the literal
  is ignored, and a numeral (digits, or digits, a dot and digits) followed by anything
  that does not continue it has its value. \<open>parseBuffer("10km")\<close> is
  \<open>{radius: 10, unit: "kilometers"}\<close> and \<open>parseBuffer("2.5mi")\<close> is
  \<open>{radius: 2.5, unit: "miles"}\<close>; further strings show white space (the no-break space
  included), signs, exponents, a missing integer part, \<open>Infinity\<close> and \<open>NaN\<close>.
\<close>
theorem parseBuffer_radius_and_unit:
  "unit (parseBuffer (Str s)) = (if suffix ''mi'' s then ''miles'' else ''kilometers'')
   \<and> (\<exists>ws t. s = ws @ t \<and> list_all is_space ws \<and> (t = [] \<or> \<not> is_space (hd t))
        \<and> (if no_literal t then radius (parseBuffer (Str s)) = NaN
            else (\<exists>p. longest_literal p t
                    \<and> str_decimal_literal p (radius (parseBuffer (Str s))))))
   \<and> (list_all is_space ws \<and> longest_literal p t \<and> str_decimal_literal p n \<longrightarrow>
        radius (parseBuffer (Str (ws @ t))) = n)
   \<and> (list_all is_space ws \<and> (t = [] \<or> \<not> is_space (hd t)) \<and> no_literal t \<longrightarrow>
        radius (parseBuffer (Str (ws @ t))) = NaN)
   \<and> (digits ip \<and> stops_numeral u \<longrightarrow>
        radius (parseBuffer (Str (ip @ u))) = to_double (of_int (dec ip)))
   \<and> (digits ip \<and> list_all is_digit fp \<and> stops_numeral u \<longrightarrow>
        radius (parseBuffer (Str (ip @ ''.'' @ fp @ u)))
          = to_double (of_int (dec ip) + of_int (dec fp) / 10 ^ length fp))
   \<and> parseBuffer (Str ''10km'') = \<lparr>radius = Fin 10, unit = ''kilometers''\<rparr>
   \<and> parseBuffer (Str ''2.5mi'') = \<lparr>radius = Fin (5 / 2), unit = ''miles''\<rparr>
   \<and> parseBuffer (Str (CHR 0xA0 # '' -2.5e1mi'')) = \<lparr>radius = Fin (- 25), unit = ''miles''\<rparr>
   \<and> parseBuffer (Str ''+.5E+1 mi '') = \<lparr>radius = Fin 5, unit = ''kilometers''\<rparr>
   \<and> parseBuffer (Str ''25e-2e3'') = \<lparr>radius = Fin (1 / 4), unit = ''kilometers''\<rparr>
   \<and> parseBuffer (Str ''7.e'') = \<lparr>radius = Fin 7, unit = ''kilometers''\<rparr>
   \<and> parseBuffer (Str ''-Infinitymi'') = \<lparr>radius = NInf, unit = ''miles''\<rparr>
   \<and> parseBuffer (Str ''mi'') = \<lparr>radius = NaN, unit = ''miles''\<rparr>
   \<and> parseBuffer (Str ''- 1km'') = \<lparr>radius = NaN, unit = ''kilometers''\<rparr>"
proof -
  have 1: "unit (parseBuffer (Str s)) = (if suffix ''mi'' s then ''miles'' else ''kilometers'')"
    by (simp add: parseBuffer_def rx_mi_iff Let_def)
  have 2: "\<exists>ws t. s = ws @ t \<and> list_all is_space ws \<and> (t = [] \<or> \<not> is_space (hd t))
        \<and> (if no_literal t then radius (parseBuffer (Str s)) = NaN
            else (\<exists>p. longest_literal p t
                    \<and> str_decimal_literal p (radius (parseBuffer (Str s)))))"
  proof (rule exI [of _ "takeWhile is_space s"], rule exI [of _ "dropWhile is_space s"],
      intro conjI)
    let ?ws = "takeWhile is_space s" and ?t = "dropWhile is_space s"
    note sp = spaces_split [of s]
    show "s = ?ws @ ?t" "list_all is_space ?ws" "?t = [] \<or> \<not> is_space (hd ?t)"
      by (rule sp)+
    show "if no_literal ?t then radius (parseBuffer (Str s)) = NaN
          else (\<exists>p. longest_literal p ?t \<and> str_decimal_literal p (radius (parseBuffer (Str s))))"
    proof (cases "no_literal ?t")
      case True
      from parseFloat_str_NaN [OF sp(2,3) True] True show ?thesis
        by (simp add: radius_parseBuffer)
    next
      case False
      from parseFloat_str_not_NaN [OF sp(2,3) False] False show ?thesis
        by (auto simp: radius_parseBuffer)
    qed
  qed
  have 3: "list_all is_space ws \<and> longest_literal p t \<and> str_decimal_literal p n \<longrightarrow>
        radius (parseBuffer (Str (ws @ t))) = n"
    using parseFloat_str_longest [of ws p t n] by (simp add: radius_parseBuffer)
  have 4: "list_all is_space ws \<and> (t = [] \<or> \<not> is_space (hd t)) \<and> no_literal t \<longrightarrow>
        radius (parseBuffer (Str (ws @ t))) = NaN"
    using parseFloat_str_NaN [of ws t] by (simp add: radius_parseBuffer)
  have 5: "digits ip \<and> stops_numeral u \<longrightarrow>
        radius (parseBuffer (Str (ip @ u))) = to_double (of_int (dec ip))"
    using parseFloat_str_integer [of ip u] by (simp add: radius_parseBuffer)
  have 6: "digits ip \<and> list_all is_digit fp \<and> stops_numeral u \<longrightarrow>
        radius (parseBuffer (Str (ip @ ''.'' @ fp @ u)))
          = to_double (of_int (dec ip) + of_int (dec fp) / 10 ^ length fp)"
    using parseFloat_str_fraction [of ip fp u] by (simp add: radius_parseBuffer)
  have 7: "parseBuffer (Str ''10km'') = \<lparr>radius = Fin 10, unit = ''kilometers''\<rparr>"
    by code_simp
  have 8: "parseBuffer (Str ''2.5mi'') = \<lparr>radius = Fin (5 / 2), unit = ''miles''\<rparr>"
    by code_simp
  have 9: "parseBuffer (Str (CHR 0xA0 # '' -2.5e1mi'')) = \<lparr>radius = Fin (- 25), unit = ''miles''\<rparr>"
    by code_simp
  have 10: "parseBuffer (Str ''+.5E+1 mi '') = \<lparr>radius = Fin 5, unit = ''kilometers''\<rparr>"
    by code_simp
  have 11: "parseBuffer (Str ''25e-2e3'') = \<lparr>radius = Fin (1 / 4), unit = ''kilometers''\<rparr>"
    by code_simp
  have 12: "parseBuffer (Str ''7.e'') = \<lparr>radius = Fin 7, unit = ''kilometers''\<rparr>"
    by code_simp
  have 13: "parseBuffer (Str ''-Infinitymi'') = \<lparr>radius = NInf, unit = ''miles''\<rparr>"
    by code_simp
  have 14: "parseBuffer (Str ''mi'') = \<lparr>radius = NaN, unit = ''miles''\<rparr>"
    by code_simp
  have 15: "parseBuffer (Str ''- 1km'') = \<lparr>radius = NaN, unit = ''kilometers''\<rparr>"
    by code_simp
  show ?thesis
    by (intro conjI) (rule 1 2 3 4 5 6 7 8 9 10 11 12 13 14 15)+
qed

theorem parseBuffer_radius_and_unit_witness:
  "list_all is_space [CHR 0xA0, CHR '' '']
   \<and> longest_literal ''-2.5e1'' ''-2.5e1mi''
   \<and> str_decimal_literal ''-2.5e1'' (Fin (- 25))
   \<and> radius (parseBuffer (Str ([CHR 0xA0, CHR '' ''] @ ''-2.5e1mi''))) = Fin (- 25)
   \<and> no_literal ''km''
   \<and> radius (parseBuffer (Str ([CHR 0xA0, CHR '' ''] @ ''km''))) = NaN
   \<and> digits ''2'' \<and> list_all is_digit ''5'' \<and> stops_numeral ''mi''
   \<and> digits ''10'' \<and> stops_numeral ''km''
   \<and> radius (parseBuffer (Str ''10km'')) = Fin 10
   \<and> radius (parseBuffer (Str ''2.5mi'')) = Fin (5 / 2)
   \<and> unit (parseBuffer (Str ''2.5mi'')) = ''miles''"
proof -
  have sp: "list_all is_space [CHR 0xA0, CHR '' '']" by (simp add: is_space_def)
  have x: "exponent_part ''e1'' 1"
    using exponent_part_digits [of "CHR ''e''" "''1''"]
    by (simp add: digits_def is_digit_def dec_def digit_val_def)
  have v: "to_double (if ''-'' = ''-''
                      then - ((of_int (dec ''2'') + of_int (dec ''5'') / 10 ^ length ''5'') * pow10 1)
                      else (of_int (dec ''2'') + of_int (dec ''5'') / 10 ^ length ''5'') * pow10 1)
           = Fin (- 25)"
    by code_simp
  have l: "str_decimal_literal ''-2.5e1'' (Fin (- 25))"
    using v str_decimal_literal_dot [of "''-''" "''2''" "''5''" "''e1''" 1] x
    by (simp add: is_digit_def)
  have ll: "longest_literal ''-2.5e1'' ''-2.5e1mi''"
    using longest_literal_stop [OF l, of "CHR ''m''" "''i''"] by (simp add: is_digit_def)
  have nl: "no_literal ''km''"
    using no_literal_Cons [of "CHR ''k''" "''m''"] by (simp add: is_digit_def)
  have h: "digits ''2''" "list_all is_digit ''5''" "stops_numeral ''mi''"
    "digits ''10''" "stops_numeral ''km''"
    by (simp_all add: digits_def is_digit_def stops_numeral_def)
  have w: "to_double (of_int (dec ''10'')) = Fin 10"
    "to_double (of_int (dec ''2'') + of_int (dec ''5'') / 10 ^ length ''5'') = Fin (5 / 2)"
    by code_simp+
  have k: "''km'' = [] \<or> \<not> is_space (hd ''km'')" by (simp add: is_space_def)
  show ?thesis
    using parseBuffer_radius_and_unit
            [of "''2.5mi''" "[CHR 0xA0, CHR '' '']" "''-2.5e1''" "''-2.5e1mi''" "Fin (- 25)"
                "''2''" "''mi''" "''5''"]
      parseBuffer_radius_and_unit
            [of "''2.5mi''" "[CHR 0xA0, CHR '' '']" "''-2.5e1''" "''km''" "Fin (- 25)"
                "''10''" "''km''" "''5''"]
      sp l ll nl h w k
    by simp
qed

subsection \<open>Numeric directives\<close>

lemma round_half_even_ge_floor: "\<lfloor>x\<rfloor> \<le> round_half_even x"
  by (simp add: round_half_even_def Let_def)

lemma to_double_int_overflow:
  assumes "2 ^ 1024 \<le> n"
  shows "to_double (of_int n) = PInf"
proof -
  have pos: "0 < n" using assms by (rule less_le_trans [rotated]) simp
  have bl: "1025 \<le> bitlen n" using assms by (simp add: bitlen_ge_iff_power)
  define e where "e = max (flog2 (of_int n) - 52) (- 1074)"
  have e: "e = bitlen n - 53" using bl by (simp add: e_def flog2_int [OF pos])
  have e0: "0 \<le> e" using bl e by simp
  define m where "m = round_half_even (of_int n / pow2 e)"
  have p: "pow2 e = of_int (2 ^ nat e)" using e0 by (simp add: pow2_def)
  have "(2::int) ^ nat (bitlen n - 1) \<le> n" using bitlen_bounds [OF pos] by simp
  moreover have "nat (bitlen n - 1) = 52 + nat e" using bl e by simp
  ultimately have "(2::int) ^ 52 * 2 ^ nat e \<le> n" by (simp add: power_add)
  then have "((2::int) ^ 52 * 2 ^ nat e) div 2 ^ nat e \<le> n div 2 ^ nat e"
    by (rule zdiv_mono1) simp
  then have "(2::int) ^ 52 \<le> n div 2 ^ nat e" by simp
  also have "\<dots> = \<lfloor>of_int n / pow2 e\<rfloor>"
    unfolding p by (rule floor_divide_of_int_eq [symmetric])
  also have "\<dots> \<le> m" unfolding m_def by (rule round_half_even_ge_floor)
  finally have "2 ^ 52 \<le> m" .
  then have "53 \<le> bitlen m" by (simp add: bitlen_ge_iff_power)
  then have ov: "1024 < bitlen m + e" using bl e by simp
  have "0 < (of_int n :: rat)" using pos by simp
  from to_double_pos [OF this]
  have "to_double (of_int n) = (if 1024 < bitlen m + e then PInf else Fin (of_int m * pow2 e))"
    unfolding e_def [symmetric] m_def [symmetric] .
  then show ?thesis using ov by simp
qed


lemma dec_zeros: "dec (s @ replicate n (CHR ''0'')) = dec s * 10 ^ n"
proof (induction n)
  case 0
  show ?case by simp
next
  case (Suc n)
  have "s @ replicate (Suc n) (CHR ''0'') = (s @ replicate n (CHR ''0'')) @ [CHR ''0'']"
    by (simp add: replicate_append_same)
  then have "dec (s @ replicate (Suc n) (CHR ''0''))
      = 10 * dec (s @ replicate n (CHR ''0'')) + digit_val (CHR ''0'')"
    by (simp only: dec_snoc)
  then show ?case using Suc by (simp add: digit_val_def)
qed

lemma number_string_cases:
  assumes "rx_full rx_number (toString val)"
  obtains s where "val = Str s" "digits s"
  using assms unfolding rx_number_iff
  by (cases val) (auto simp: digits_def is_digit_def split: if_splits)

lemma huge_numeral:
  "digits (CHR ''1'' # replicate 309 (CHR ''0''))"
  "Number_str (CHR ''1'' # replicate 309 (CHR ''0'')) = PInf"
proof -
  show d: "digits (CHR ''1'' # replicate 309 (CHR ''0''))"
    by (simp add: digits_def is_digit_def list_all_iff)
  have "dec (''1'' @ replicate 309 (CHR ''0'')) = dec ''1'' * 10 ^ 309" by (rule dec_zeros)
  then have v: "dec (CHR ''1'' # replicate 309 (CHR ''0'')) = 10 ^ 309"
    by (simp add: dec_def digit_val_def)
  have "(2::int) ^ 1024 \<le> 10 ^ 309" by simp
  then have "to_double (of_int (10 ^ 309)) = PInf" by (rule to_double_int_overflow)
  then show "Number_str (CHR ''1'' # replicate 309 (CHR ''0'')) = PInf"
    unfolding Number_str_digits [OF d] v .
qed

text \<open>
  C6. For every value whose string matches \<open>^\d+$\<close> (it is then a string of digits):
  if its number is finite, \<open>parseNumberOrZoomFunction\<close> returns a constant function,
  which applied to any zoom returns that number (the integer written, when it is at
  most \<open>2^53\<close>); if its number is not finite, the call fails with the error of
  \<open>throwArgumentError\<close>. In particular \<open>parseNumberOrZoomFunction("5")(z) = 5\<close> for
  every \<open>z\<close>.
\<close>
theorem parseNumberOrZoomFunction_number:
  assumes "rx_full rx_number (toString val)"
  shows "(isFinite (Number_js val) \<longrightarrow>
            parseNumberOrZoomFunction eng val message = Inr (Constant (Number_js val))
            \<and> (\<forall>z. apply_fn eng (Constant (Number_js val)) z = Inr (Number_js val)))
       \<and> (\<not> isFinite (Number_js val) \<longrightarrow>
            parseNumberOrZoomFunction eng val message = Inl (ArgumentError message))
       \<and> (\<exists>s. val = Str s \<and> digits s
            \<and> (dec s \<le> 2 ^ 53 \<longrightarrow> Number_js val = Fin (of_int (dec s))))
       \<and> (\<forall>z. andThen (parseNumberOrZoomFunction eng (Str ''5'') message)
                 (\<lambda>f. apply_fn eng f z) = Inr (Fin 5))"
proof -
  from assms obtain s where s: "val = Str s" "digits s" by (rule number_string_cases)
  have 1: "isFinite (Number_js val) \<longrightarrow>
            parseNumberOrZoomFunction eng val message = Inr (Constant (Number_js val))
            \<and> (\<forall>z. apply_fn eng (Constant (Number_js val)) z = Inr (Number_js val))"
    using assms
    by (simp add: parseNumberOrZoomFunction_def assertNumber_def andThen_def Let_def)
  have 2: "\<not> isFinite (Number_js val) \<longrightarrow>
            parseNumberOrZoomFunction eng val message = Inl (ArgumentError message)"
    using assms
    by (simp add: parseNumberOrZoomFunction_def assertNumber_def andThen_def Let_def
        throwArgumentError_def)
  have "0 \<le> dec s" using s(2) by (intro dec_nonneg) (simp add: digits_def)
  then have "dec s \<le> 2 ^ 53 \<longrightarrow> Number_js val = Fin (of_int (dec s))"
    using Number_str_digits [OF s(2)] to_double_int_exact [of "dec s"] s(1) by simp
  then have 3: "\<exists>s. val = Str s \<and> digits s
            \<and> (dec s \<le> 2 ^ 53 \<longrightarrow> Number_js val = Fin (of_int (dec s)))"
    using s by blast
  have n5: "Number_str ''5'' = Fin 5" by code_simp
  have m5: "rx_full rx_number ''5''" by (simp add: rx_number_def some_def is_digit_def)
  have 4: "\<forall>z. andThen (parseNumberOrZoomFunction eng (Str ''5'') message)
                 (\<lambda>f. apply_fn eng f z) = Inr (Fin 5)"
    using m5
    by (simp add: parseNumberOrZoomFunction_def assertNumber_def andThen_def Let_def n5
        del: rx_full.simps)
  show ?thesis using 1 2 3 4 by blast
qed

theorem parseNumberOrZoomFunction_number_witness:
  "rx_full rx_number (toString (Str ''5000''))
   \<and> isFinite (Number_js (Str ''5000''))
   \<and> parseNumberOrZoomFunction example_engine (Str ''5000'') None = Inr (Constant (Fin 5000))
   \<and> apply_fn example_engine (Constant (Fin 5000)) (Fin 7) = Inr (Fin 5000)
   \<and> rx_full rx_number (toString (Str (CHR ''1'' # replicate 309 (CHR ''0''))))
   \<and> \<not> isFinite (Number_js (Str (CHR ''1'' # replicate 309 (CHR ''0''))))
   \<and> parseNumberOrZoomFunction example_engine (Str (CHR ''1'' # replicate 309 (CHR ''0''))) None
       = Inl (ArgumentError None)"
proof -
  have m: "rx_full rx_number (toString (Str ''5000''))"
    by (simp add: rx_number_def some_def is_digit_def)
  have n: "Number_js (Str ''5000'') = Fin 5000" by code_simp
  have m': "rx_full rx_number (toString (Str (CHR ''1'' # replicate 309 (CHR ''0''))))"
    using huge_numeral(1) by (simp add: rx_number_iff del: rx_full.simps)
  have n': "Number_js (Str (CHR ''1'' # replicate 309 (CHR ''0''))) = PInf"
    using huge_numeral(2) by simp
  show ?thesis
    using parseNumberOrZoomFunction_number [OF m, of example_engine None]
      parseNumberOrZoomFunction_number [OF m', of example_engine None] m m'
    unfolding n n' by simp
qed

text \<open>
  C2 (the code differs). When the string does not match \<open>^\d+$\<close> and the engine
  rejects the body \<open>return <string>\<close>, the exception of \<open>new Function\<close> leaves
  \<open>parseNumberOrZoomFunction\<close> as it is: a \<open>SyntaxError\<close> of the engine, which does not
  carry the flag \<open>argumentError\<close>.
\<close>
theorem parseNumberOrZoomFunction_syntax_error:
  assumes "\<not> rx_full rx_number (toString val)"
    and "\<not> compiles eng (''return '' @ toString val)"
  shows "parseNumberOrZoomFunction eng val message = Inl (NativeError ''SyntaxError'')
       \<and> \<not> argumentError (NativeError ''SyntaxError'')"
  using assms by (simp add: parseNumberOrZoomFunction_def)

theorem parseNumberOrZoomFunction_syntax_error_witness:
  "\<not> rx_full rx_number (toString (Str ''z <''))
   \<and> \<not> compiles example_engine (''return '' @ toString (Str ''z <''))
   \<and> parseNumberOrZoomFunction example_engine (Str ''z <'') None
       = Inl (NativeError ''SyntaxError'')
   \<and> \<not> argumentError (NativeError ''SyntaxError'')"
proof -
  have h: "\<not> rx_full rx_number (toString (Str ''z <''))"
    "\<not> compiles example_engine (''return '' @ toString (Str ''z <''))"
    by (simp_all add: rx_number_def some_def is_digit_def example_engine_def)
  show ?thesis
    using parseNumberOrZoomFunction_syntax_error [OF h, of None] h by simp
qed

subsection \<open>Validation\<close>

lemma assertTemplateUrlParameter_Str:
  "assertTemplateUrlParameter (Str s) param =
     (if sublist param s then Inr ()
      else Inl (ArgumentError (Some (''Template url is missing parameter: '' @ param))))"
  by (simp add: assertTemplateUrlParameter_def indexOf_sublist throwArgumentError_def)

lemma no_http_prefix:
  "\<not> rx_prefix rx_http ''undefined''" "\<not> rx_prefix rx_http ''null''"
  "\<not> rx_prefix rx_http ''true''" "\<not> rx_prefix rx_http ''false''"
  by (simp_all add: rx_http_iff)

text \<open>
  C7 (amended). \<open>assertTemplateUrl\<close> passes exactly the strings that start with \<open>http:\<close>
  or \<open>https:\<close> and contain \<open>{x}\<close>, \<open>{y}\<close> and \<open>{z}\<close>. Every other value fails with an
  \<open>ArgumentError\<close>: with the message \<open>Invalid url\<close> when the url is absent or does not
  start with the scheme, whether or not a placeholder is missing too; otherwise with a
  message naming the first missing placeholder in the order \<open>{x}\<close>, \<open>{y}\<close>, \<open>{z}\<close>.
\<close>
theorem assertTemplateUrl_cases:
  "assertTemplateUrl template =
     (case template of
        Str s \<Rightarrow>
          if \<not> (prefix ''http:'' s \<or> prefix ''https:'' s)
          then Inl (ArgumentError (Some ''Invalid url''))
          else if \<not> sublist ''{x}'' s
          then Inl (ArgumentError (Some ''Template url is missing parameter: {x}''))
          else if \<not> sublist ''{y}'' s
          then Inl (ArgumentError (Some ''Template url is missing parameter: {y}''))
          else if \<not> sublist ''{z}'' s
          then Inl (ArgumentError (Some ''Template url is missing parameter: {z}''))
          else Inr ()
      | _ \<Rightarrow> Inl (ArgumentError (Some ''Invalid url'')))"
proof (cases template)
  case (Str s)
  show ?thesis
    unfolding Str assertTemplateUrl_def assertTemplateUrlParameter_Str
    by (simp add: rx_http_iff andThen_def throwArgumentError_def)
qed (simp_all add: assertTemplateUrl_def no_http_prefix throwArgumentError_def)

theorem assertTemplateUrl_cases_witness:
  "assertTemplateUrl (Str ''http://tileserver.com/{z}/{x}/{y}.png'') = Inr ()
   \<and> assertTemplateUrl (Str ''http://tileserver.com/{x}/{y}.png'')
       = Inl (ArgumentError (Some ''Template url is missing parameter: {z}''))
   \<and> assertTemplateUrl (Str ''tileserver.com/{z}/{x}/{y}.png'')
       = Inl (ArgumentError (Some ''Invalid url''))
   \<and> assertTemplateUrl Undefined = Inl (ArgumentError (Some ''Invalid url''))"
proof -
  have s: "sublist ''{x}'' ''http://tileserver.com/{z}/{x}/{y}.png''"
    "sublist ''{y}'' ''http://tileserver.com/{z}/{x}/{y}.png''"
    "sublist ''{z}'' ''http://tileserver.com/{z}/{x}/{y}.png''"
    "sublist ''{x}'' ''http://tileserver.com/{x}/{y}.png''"
    "sublist ''{y}'' ''http://tileserver.com/{x}/{y}.png''"
    "\<not> sublist ''{z}'' ''http://tileserver.com/{x}/{y}.png''"
    unfolding indexOf_sublist [symmetric] by code_simp+
  show ?thesis
    using assertTemplateUrl_cases [of "Str ''http://tileserver.com/{z}/{x}/{y}.png''"]
      assertTemplateUrl_cases [of "Str ''http://tileserver.com/{x}/{y}.png''"]
      assertTemplateUrl_cases [of "Str ''tileserver.com/{z}/{x}/{y}.png''"]
      assertTemplateUrl_cases [of Undefined] s
    by simp
qed

theorem assertTemplateUrl_cases_counterexample:
  "\<not> sublist ''{z}'' ''ftp://tileserver.com/{x}/{y}.png''
   \<and> assertTemplateUrl (Str ''ftp://tileserver.com/{x}/{y}.png'')
       = Inl (ArgumentError (Some ''Invalid url''))
   \<and> \<not> sublist ''{z}'' ''Invalid url''"
proof -
  have 1: "\<not> sublist ''{z}'' ''ftp://tileserver.com/{x}/{y}.png''"
    unfolding indexOf_sublist [symmetric] by code_simp
  have 2: "assertTemplateUrl (Str ''ftp://tileserver.com/{x}/{y}.png'')
       = Inl (ArgumentError (Some ''Invalid url''))"
    by (simp add: assertTemplateUrl_def rx_http_iff throwArgumentError_def)
  have 3: "\<not> sublist ''{z}'' ''Invalid url''"
    unfolding indexOf_sublist [symmetric] by code_simp
  show ?thesis using 1 2 3 by blast
qed

text \<open>
  C8. For every option bag in which \<open>point\<close> is present and \<open>buffer\<close> is absent, in the
  sense of the test \<open>opts.point && !opts.buffer\<close> (present: a value that is not
  \<open>undefined\<close>, \<open>null\<close>, \<open>false\<close> or the empty string), \<open>validateAndTransformOpts\<close> fails
  with the \<open>ArgumentError\<close> of that check; no configuration is returned and the file system
  is as before, nothing was read.
\<close>
theorem validateAndTransformOpts_point_without_buffer:
  assumes "truthy (point opts)" "\<not> truthy (buffer opts)"
  shows "validateAndTransformOpts eng opts fs =
           (Inl (ArgumentError (Some ''When --point is set, --buffer must also be set'')), fs)
       \<and> argumentError (ArgumentError (Some ''When --point is set, --buffer must also be set''))"
  using assms by (simp add: validateAndTransformOpts_def throwArgumentError_def)

theorem validateAndTransformOpts_point_without_buffer_witness:
  "truthy (point (defaultOpts\<lparr>point := Str ''62.31,23.12'', buffer := Undefined\<rparr>))
   \<and> \<not> truthy (buffer (defaultOpts\<lparr>point := Str ''62.31,23.12'', buffer := Undefined\<rparr>))
   \<and> validateAndTransformOpts example_engine
        (defaultOpts\<lparr>point := Str ''62.31,23.12'', buffer := Undefined\<rparr>) example_files
       = (Inl (ArgumentError (Some ''When --point is set, --buffer must also be set'')),
          example_files)"
proof -
  have h: "truthy (point (defaultOpts\<lparr>point := Str ''62.31,23.12'', buffer := Undefined\<rparr>))"
    "\<not> truthy (buffer (defaultOpts\<lparr>point := Str ''62.31,23.12'', buffer := Undefined\<rparr>))"
    by simp_all
  show ?thesis
    using validateAndTransformOpts_point_without_buffer [OF h, of example_engine example_files] h
    by simp
qed

subsection \<open>The input file\<close>

text \<open>
  C9. \<open>parseInput\<close> returns \<open>null\<close> and leaves the file system untouched when the path is
  absent (\<open>undefined\<close>, \<open>null\<close>, \<open>false\<close> or empty). For the path of an existing file it
  reads that file; when \<open>JSON.parse\<close> rejects the content it raises an \<open>ArgumentError\<close>
  with the message \<open>Invalid JSON\<close>, and otherwise it returns what \<open>JSON.parse\<close> returned.
\<close>
theorem parseInput_cases:
  "(\<not> truthy inp \<longrightarrow> parseInput eng inp fs = (Inr JNull, fs))
   \<and> (p \<noteq> [] \<and> map_of (files fs) p = Some content \<and> JSON_parse eng content = None \<longrightarrow>
        parseInput eng (Str p) fs
          = (Inl (ArgumentError (Some ''Invalid JSON'')), fs\<lparr>reads := reads fs @ [p]\<rparr>))
   \<and> (p \<noteq> [] \<and> map_of (files fs) p = Some content \<and> JSON_parse eng content = Some obj \<longrightarrow>
        parseInput eng (Str p) fs = (Inr obj, fs\<lparr>reads := reads fs @ [p]\<rparr>))"
  by (simp add: parseInput_def readFileSync_def throwArgumentError_def)

theorem parseInput_cases_witness:
  "\<not> truthy Null \<and> parseInput example_engine Null example_files = (Inr JNull, example_files)
   \<and> map_of (files example_files) ''broken.json'' = Some ''{not json''
   \<and> JSON_parse example_engine ''{not json'' = None
   \<and> fst (parseInput example_engine (Str ''broken.json'') example_files)
       = Inl (ArgumentError (Some ''Invalid JSON''))
   \<and> map_of (files example_files) ''point.json''
       = Some ''{\"type\":\"Point\",\"coordinates\":[1,2]}''
   \<and> fst (parseInput example_engine (Str ''point.json'') example_files)
       = Inr (JObj [(''type'', JStr ''Point''),
                    (''coordinates'', JArr [JNum (Fin 1), JNum (Fin 2)])])"
proof -
  have f: "map_of (files example_files) ''broken.json'' = Some ''{not json''"
    "map_of (files example_files) ''point.json''
       = Some ''{\"type\":\"Point\",\"coordinates\":[1,2]}''"
    by (simp_all add: example_files_def)
  have j: "JSON_parse example_engine ''{not json'' = None"
    "JSON_parse example_engine ''{\"type\":\"Point\",\"coordinates\":[1,2]}''
       = Some (JObj [(''type'', JStr ''Point''),
                     (''coordinates'', JArr [JNum (Fin 1), JNum (Fin 2)])])"
    by (simp_all add: example_engine_def)
  show ?thesis
    using parseInput_cases [of Null example_engine example_files "''broken.json''" "''{not json''"]
      parseInput_cases [of Null example_engine example_files "''point.json''"
        "''{\"type\":\"Point\",\"coordinates\":[1,2]}''"
        "JObj [(''type'', JStr ''Point''), (''coordinates'', JArr [JNum (Fin 1), JNum (Fin 2)])]"]
      f j
    by simp
qed

subsection \<open>The entry point and the defaults\<close>

text \<open>What the merge of \<open>getOpts\<close> leaves in \<open>defaultOpts\<close>: every option the user gave.\<close>

lemma getOpts_keeps_user_zoom:
  "zoom cli \<noteq> Undefined \<Longrightarrow> zoom (snd (getOpts eng defaults cli fs)) = zoom cli"
  by (simp add: getOpts_def getUserOpts_def merge_def given_def assignMergeValue_def Let_def)

text \<open>
  C1 (the code differs). \<open>getOpts\<close> merges the user's options into \<open>defaultOpts\<close>
  itself. After a call with \<open>--zoom 1-2\<close> the default zoom is \<open>1-2\<close> instead of \<open>3-9\<close>,
  and a following call that gives no zoom returns the zoom levels \<open>[1, 2]\<close>, where a
  first call with the same arguments returns \<open>[3, \<dots>, 9]\<close>.
\<close>
theorem getOpts_overwrites_defaultOpts:
  "zoom defaultOpts = Str ''3-9''
   \<and> zoom (snd (getOpts example_engine defaultOpts
          ((only_url ''http://tileserver.com/{z}/{x}/{y}.png'')\<lparr>zoom := Str ''1-2''\<rparr>)
          example_files)) = Str ''1-2''
   \<and> snd (getOpts example_engine defaultOpts
          ((only_url ''http://tileserver.com/{z}/{x}/{y}.png'')\<lparr>zoom := Str ''1-2''\<rparr>)
          example_files) \<noteq> defaultOpts
   \<and> map_sum id cfg_zoom (fst (fst (getOpts example_engine defaultOpts
          (only_url ''http://tileserver.com/{z}/{x}/{y}.png'') example_files)))
       = Inr [Fin 3, Fin 4, Fin 5, Fin 6, Fin 7, Fin 8, Fin 9]
   \<and> map_sum id cfg_zoom (fst (fst (getOpts example_engine
          (snd (getOpts example_engine defaultOpts
             ((only_url ''http://tileserver.com/{z}/{x}/{y}.png'')\<lparr>zoom := Str ''1-2''\<rparr>)
             example_files))
          (only_url ''http://tileserver.com/{z}/{x}/{y}.png'') example_files)))
       = Inr [Fin 1, Fin 2]"
proof -
  let ?u = "only_url ''http://tileserver.com/{z}/{x}/{y}.png''"
  let ?d1 = "snd (getOpts example_engine defaultOpts (?u\<lparr>zoom := Str ''1-2''\<rparr>) example_files)"
  have 1: "zoom defaultOpts = Str ''3-9''" by (simp add: defaultOpts_def)
  have 2: "zoom ?d1 = Str ''1-2''"
    by (simp add: getOpts_def getUserOpts_def merge_def given_def assignMergeValue_def
        only_url_def Let_def)
  have 3: "?d1 \<noteq> defaultOpts" using 1 2 by auto
  have 4: "map_sum id cfg_zoom (fst (fst (getOpts example_engine defaultOpts ?u example_files)))
       = Inr [Fin 3, Fin 4, Fin 5, Fin 6, Fin 7, Fin 8, Fin 9]"
    by code_simp
  have 5: "map_sum id cfg_zoom (fst (fst (getOpts example_engine ?d1 ?u example_files)))
       = Inr [Fin 1, Fin 2]"
    by code_simp
  show ?thesis using 1 2 3 4 5 by blast
qed

end
